theory Spec2Isabelle
  imports
    Complex_Main
    "HOL-Library.Multiset"
    "HOL-Library.Product_Lexorder"
    "HOL-Library.List_Lexorder"
    "HOL-Library.Char_ord"
begin

section \<open>Combat units of hunter-sim (units.py)\<close>

text \<open>
  The embedding follows \<^verbatim>\<open>src/hunter-sim/units.py\<close>. A float field holds a real
  number and Python ints are \<open>int\<close>. The arithmetic of stat generation, damage and speed
  is read as exact; the arithmetic of \<^verbatim>\<open>heal_hp\<close> and \<^verbatim>\<open>missing_hp\<close>, where the
  least rounding decides whether hp stays within max_hp, is rounded to double precision
  as the machine does it. Every call of
  \<^verbatim>\<open>random.random()\<close> is a parameter \<open>r\<close> of the function that draws it.
  Calls of \<^verbatim>\<open>logging.debug\<close> are left out.
\<close>

subsection \<open>Data\<close>

datatype error = ValueError | IndexError

text \<open>The \<^verbatim>\<open>isinstance\<close> tests on the hunter: Borge, Ozzy, or any other Hunter.\<close>

datatype hunter_variant = Borge | Ozzy | Other

text \<open>The dict that \<^verbatim>\<open>fetch_stats\<close> returns; its keys are the keyword arguments of
  \<^verbatim>\<open>__create__\<close>. The field \<open>power'\<close> is the key \<^verbatim>\<open>power\<close>.\<close>

record stats =
  hp :: real
  power' :: real
  regen :: real
  special_chance :: real
  special_damage :: real
  damage_reduction :: real
  evade_chance :: real
  speed :: real

text \<open>An Enemy object: the stat fields and what \<^verbatim>\<open>__create__\<close> adds. For a Boss the
  field \<open>speed\<close> is the stored \<^verbatim>\<open>_speed\<close> that the property setter writes.\<close>

record enemy = stats +
  name :: string
  max_hp :: real
  stun_duration :: real

record boss = enemy +
  enrage_stacks :: int
  max_enrage :: bool
  enrage_effect :: real

text \<open>The hunter as this module uses it: the \<^verbatim>\<open>isinstance\<close> variant, the keys of
  \<^verbatim>\<open>talents\<close> and \<^verbatim>\<open>attributes\<close>, the kill counter and the enrage log.\<close>

record hunter =
  variant :: hunter_variant
  talents :: "string set"
  attributes :: "string set"
  total_kills :: int
  enrage_log :: "int list"

text \<open>The four methods of the hunter that \<^verbatim>\<open>on_create\<close> calls live in hunters.py;
  they are parameters of the model. Each one receives the new unit and may change it.\<close>

record creation_hooks =
  apply_pog :: "enemy \<Rightarrow> enemy"
  apply_ood :: "enemy \<Rightarrow> enemy"
  apply_snek :: "enemy \<Rightarrow> enemy"
  apply_medusa :: "enemy \<Rightarrow> enemy"

text \<open>A queue entry is the tuple \<^verbatim>\<open>(p1, p2, u)\<close>: scheduled time, tie-break, kind.
  Python compares tuples lexicographically, which is the order of the product type here.\<close>

type_synonym entry = "real \<times> int \<times> string"

text \<open>Writes to objects the unit does not own, in program order.\<close>

datatype effect = Kills_Incremented | Queue_Purged | Enrage_Logged int

text \<open>The simulation as the unit sees it: \<^verbatim>\<open>sim.queue\<close> (a Python list used as a
  heapq heap) and \<^verbatim>\<open>sim.hunter\<close>. The field \<open>journal\<close> is not in the source: it
  records the order in which the death handlers write to the hunter and the queue.\<close>

record sim =
  queue :: "entry list"
  sim_hunter :: hunter
  journal :: "effect list"

subsection \<open>heapq (CPython, Lib/heapq.py)\<close>

text \<open>
  \<^verbatim>\<open>_siftdown(heap, startpos, pos)\<close>: follow the path to the root, moving parents
  down until \<^verbatim>\<open>newitem\<close> fits. The parent of \<open>pos\<close> is \<^verbatim>\<open>(pos - 1) >> 1\<close>.
  \<^verbatim>\<open>heappush\<close> and \<^verbatim>\<open>heapify\<close> call the two sift functions with positions
  inside the list only, so no read is out of range.
\<close>

function siftdown_loop :: "'a::linorder list \<Rightarrow> nat \<Rightarrow> 'a \<Rightarrow> nat \<Rightarrow> 'a list" where
  "siftdown_loop heap startpos newitem pos =
     (if pos > startpos then
        (if newitem < heap ! ((pos - 1) div 2)
         then siftdown_loop (heap[pos := heap ! ((pos - 1) div 2)]) startpos newitem ((pos - 1) div 2)
         else heap[pos := newitem])
      else heap[pos := newitem])"
  by pat_completeness auto
termination
  by (relation "measure (\<lambda>(heap, startpos, newitem, pos). pos)") auto

declare siftdown_loop.simps [simp del]

definition siftdown :: "'a::linorder list \<Rightarrow> nat \<Rightarrow> nat \<Rightarrow> 'a list" where
  "siftdown heap startpos pos = siftdown_loop heap startpos (heap ! pos) pos"

text \<open>\<^verbatim>\<open>heappush(heap, item)\<close>: append, then \<^verbatim>\<open>_siftdown(heap, 0, len(heap)-1)\<close>.\<close>

definition heappush :: "'a::linorder list \<Rightarrow> 'a \<Rightarrow> 'a list" where
  "heappush heap item = siftdown (heap @ [item]) 0 (length (heap @ [item]) - 1)"

text \<open>The index of the smaller child, as the body of the loop in \<^verbatim>\<open>_siftup\<close> picks it:
  the right child when it exists and the left one is not smaller.\<close>

definition smaller_child :: "'a::linorder list \<Rightarrow> nat \<Rightarrow> nat" where
  "smaller_child heap pos =
     (let childpos = 2 * pos + 1; rightpos = childpos + 1
      in if rightpos < length heap \<and> \<not> heap ! childpos < heap ! rightpos
         then rightpos else childpos)"

text \<open>The loop of \<^verbatim>\<open>_siftup\<close>: bubble the smaller child up until a leaf is hit.
  It returns the list and the position of the leaf.\<close>

function siftup_loop :: "'a::linorder list \<Rightarrow> nat \<Rightarrow> 'a list \<times> nat" where
  "siftup_loop heap pos =
     (if 2 * pos + 1 < length heap
      then siftup_loop (heap[pos := heap ! smaller_child heap pos]) (smaller_child heap pos)
      else (heap, pos))"
  by pat_completeness auto
termination
  by (relation "measure (\<lambda>(heap, pos). length heap - pos)")
     (auto simp: smaller_child_def Let_def)

declare siftup_loop.simps [simp del]

text \<open>\<^verbatim>\<open>_siftup(heap, pos)\<close>: after the loop the leaf takes \<^verbatim>\<open>newitem\<close>, which is
  then bubbled up by \<^verbatim>\<open>_siftdown(heap, startpos, pos)\<close>.\<close>

definition siftup :: "'a::linorder list \<Rightarrow> nat \<Rightarrow> 'a list" where
  "siftup heap pos =
     (let newitem = heap ! pos;
          (heap1, leaf) = siftup_loop heap pos
      in siftdown (heap1[leaf := newitem]) pos leaf)"

text \<open>\<^verbatim>\<open>heapify(x)\<close>: \<^verbatim>\<open>for i in reversed(range(n//2)): _siftup(x, i)\<close>.\<close>

definition heapify :: "'a::linorder list \<Rightarrow> 'a list" where
  "heapify x = foldl siftup x (rev [0..<length x div 2])"

text \<open>The heap invariant of heapq: \<^verbatim>\<open>heap[(k-1)//2] <= heap[k]\<close> for every \<open>k > 0\<close>.\<close>

definition is_heap :: "'a::linorder list \<Rightarrow> bool" where
  "is_heap heap = list_all (\<lambda>k. heap ! ((k - 1) div 2) \<le> heap ! k) [1..<length heap]"

subsection \<open>Stat generation\<close>

text \<open>Python's \<^verbatim>\<open>x // y\<close> on floats: the floor of the quotient, as a float.\<close>

definition floordiv :: "real \<Rightarrow> real \<Rightarrow> real" where
  "floordiv x y = real_of_int \<lfloor>x / y\<rfloor>"

text \<open>\<^verbatim>\<open>Enemy.fetch_stats\<close>. In \<^verbatim>\<open>0.006 + 0.006 * (stage-150) // 50\<close> the operators
  \<^verbatim>\<open>*\<close> and \<^verbatim>\<open>//\<close> have the same precedence and associate to the left, so the
  term is \<^verbatim>\<open>0.006 + ((0.006 * (stage-150)) // 50)\<close>; a conditional expression binds
  weaker than \<^verbatim>\<open>+\<close>, so \<^verbatim>\<open>(1 + x if c else 1)\<close> is \<^verbatim>\<open>((1 + x) if c else 1)\<close>.\<close>

definition enemy_fetch_stats :: "hunter \<Rightarrow> int \<Rightarrow> error + stats" where
  "enemy_fetch_stats h stage =
     (case variant h of
        Borge \<Rightarrow> Inr \<lparr>
          hp = (9 + real_of_int (stage * 4))
               * (if stage > 100 then 2.85 else 1)
               * (if stage \<ge> 150
                  then 1 + (real_of_int (stage div 150) * real_of_int (stage - 149)
                            * (0.006 + floordiv (0.006 * real_of_int (stage - 150)) 50))
                  else 1),
          power' = (2.5 + (real_of_int stage * 0.7))
               * (if stage > 100 then 2.85 else 1)
               * (if stage \<ge> 150
                  then 1 + (real_of_int (stage - 149)
                            * (0.006 + floordiv (0.006 * real_of_int (stage - 150)) 50))
                  else 1),
          regen = (if stage > 1 then 0.00 + (real_of_int (stage - 1) * 0.08) else 0)
               * (if stage > 100 then 1.052 else 1)
               * (if stage \<ge> 150
                  then 1 + (real_of_int (stage - 149)
                            * (0.006 + floordiv (0.006 * real_of_int (stage - 150)) 50))
                  else 1),
          special_chance = 0.0322 + (real_of_int stage * 0.0004),
          special_damage = 1.21 + (real_of_int stage * 0.008025),
          damage_reduction = 0,
          evade_chance = 0 + (if stage > 100 then 0.004 else 0),
          speed = 4.53 - (real_of_int stage * 0.006) \<rparr>
      | Ozzy \<Rightarrow> Inr \<lparr>
          hp = (11 + real_of_int (stage * 6))
               * (if stage > 100 then 2.9 else 1)
               * (if stage \<ge> 150
                  then 1 + (real_of_int (stage div 150) * real_of_int (stage - 149)
                            * (0.006 + floordiv (0.006 * real_of_int (stage - 150)) 50))
                  else 1),
          power' = (1.35 + (real_of_int stage * 0.75))
               * (if stage > 100 then 2.7 else 1)
               * (if stage \<ge> 150
                  then 1 + (real_of_int (stage - 149)
                            * (0.006 + floordiv (0.006 * real_of_int (stage - 150)) 50))
                  else 1),
          regen = (if stage > 0 then 0.02 + (real_of_int (stage - 1) * 0.1) else 0)
               * (if stage > 100 then 1.25 else 1)
               * (if stage \<ge> 150
                  then 1 + (real_of_int (stage - 149)
                            * (0.006 + floordiv (0.006 * real_of_int (stage - 150)) 50))
                  else 1),
          special_chance = 0.0994 + (real_of_int stage * 0.0006),
          special_damage = 1.03 + (real_of_int stage * 0.008),
          damage_reduction = 0,
          evade_chance = 0 + (if stage > 100 then 0.01 else 0),
          speed = 3.20 - (real_of_int stage * 0.004) \<rparr>
      | Other \<Rightarrow> Inl ValueError)"

text \<open>\<^verbatim>\<open>Boss.fetch_stats\<close>: a fixed table per hunter; the stage is not used.\<close>

definition boss_fetch_stats :: "hunter \<Rightarrow> int \<Rightarrow> error + stats" where
  "boss_fetch_stats h stage =
     (case variant h of
        Borge \<Rightarrow> Inr \<lparr>
          hp = 36810, power' = 263.18, regen = 15.21,
          special_chance = 0.1122, special_damage = 2.26,
          damage_reduction = 0.05, evade_chance = 0.004, speed = 9.50 \<rparr>
      | Ozzy \<Rightarrow> Inr \<lparr>
          hp = 29328, power' = 229.05, regen = 59.52,
          special_chance = 0.3094, special_damage = 1.83,
          damage_reduction = 0.05, evade_chance = 0.01, speed = 6.87 \<rparr>
      | Other \<Rightarrow> Inl ValueError)"

subsection \<open>Construction\<close>

text \<open>\<^verbatim>\<open>Enemy.__create__\<close>, inherited by Boss.\<close>

definition create :: "string \<Rightarrow> stats \<Rightarrow> enemy" where
  "create nm st =
     \<lparr> hp = hp st,
       power' = power' st,
       regen = regen st,
       special_chance = min (special_chance st) 0.25,
       special_damage = min (special_damage st) 2.5,
       damage_reduction = damage_reduction st,
       evade_chance = evade_chance st,
       speed = speed st,
       name = nm,
       max_hp = hp st,
       stun_duration = 0 \<rparr>"

text \<open>\<^verbatim>\<open>Enemy.on_create\<close>: four tests in a fixed order, each calling its hook.\<close>

definition on_create :: "creation_hooks \<Rightarrow> hunter \<Rightarrow> enemy \<Rightarrow> enemy" where
  "on_create hooks h u =
     (let u1 = (if ''presence_of_god'' \<in> talents h then apply_pog hooks u else u);
          u2 = (if ''omen_of_defeat'' \<in> talents h then apply_ood hooks u1 else u1);
          u3 = (if ''soul_of_snek'' \<in> attributes h then apply_snek hooks u2 else u2);
          u4 = (if ''gift_of_medusa'' \<in> attributes h then apply_medusa hooks u3 else u3)
      in u4)"

text \<open>\<^verbatim>\<open>Enemy.__init__\<close>.\<close>

definition enemy_init :: "creation_hooks \<Rightarrow> string \<Rightarrow> hunter \<Rightarrow> int \<Rightarrow> error + enemy" where
  "enemy_init hooks nm h stage =
     (case enemy_fetch_stats h stage of
        Inl e \<Rightarrow> Inl e
      | Inr st \<Rightarrow> Inr (on_create hooks h (create nm st)))"

text \<open>\<^verbatim>\<open>Boss.__init__\<close>: the constructor of Enemy with the stats of
  \<^verbatim>\<open>Boss.fetch_stats\<close>, then the enrage fields.\<close>

definition boss_init :: "creation_hooks \<Rightarrow> string \<Rightarrow> hunter \<Rightarrow> int \<Rightarrow> error + boss" where
  "boss_init hooks nm h stage =
     (case boss_fetch_stats h stage of
        Inl e \<Rightarrow> Inl e
      | Inr st \<Rightarrow>
          (let u = on_create hooks h (create nm st)
           in case variant h of
                Borge \<Rightarrow> Inr (enemy.extend u (boss.fields 0 False 0.0475))
              | Ozzy \<Rightarrow> Inr (enemy.extend u (boss.fields 0 False 0.033658536585365856))
              | Other \<Rightarrow> Inl ValueError))"

subsection \<open>Double-precision arithmetic\<close>

text \<open>A Python float is an IEEE 754 double: 53 significant bits, exponents from \<open>-1022\<close>
  on (below that the spacing of the subnormal numbers, \<open>2 ^ -1074\<close>), round to nearest with
  ties to the even significand. \<open>round_double\<close> maps the exact result of an operation to
  the double that the machine stores. Overflow to infinity is not modelled: no value of this
  program comes near \<open>2 ^ 1024\<close>.\<close>

text \<open>The binary exponent of a positive real: the \<open>e\<close> with \<open>2 ^ e \<le> x < 2 ^ (e + 1)\<close>;
  0 for an argument that is not positive.\<close>

function binade_pos :: "real \<Rightarrow> int" where
  "binade_pos x =
     (if 2 \<le> x then binade_pos (x / 2) + 1
      else if 0 < x \<and> x < 1 then binade_pos (x * 2) - 1
      else 0)"
  by pat_completeness auto
termination
proof (relation "measure (\<lambda>x. if 1 \<le> x then nat \<lfloor>x\<rfloor> else nat \<lfloor>1 / x\<rfloor> + 1)")
  have floor_half_less: "nat \<lfloor>y / 2\<rfloor> < nat \<lfloor>y\<rfloor>" if y: "2 \<le> y" for y :: real
  proof -
    have "real_of_int \<lfloor>y / 2\<rfloor> \<le> y / 2" by (rule of_int_floor_le)
    also have "\<dots> \<le> y - 1" using y by simp
    also have "\<dots> < real_of_int \<lfloor>y\<rfloor>" by linarith
    finally have "\<lfloor>y / 2\<rfloor> < \<lfloor>y\<rfloor>" by simp
    moreover have "0 < \<lfloor>y\<rfloor>" using y by simp
    ultimately show ?thesis by simp
  qed
  show "wf (measure (\<lambda>x::real. if 1 \<le> x then nat \<lfloor>x\<rfloor> else nat \<lfloor>1 / x\<rfloor> + 1))" by simp
  show "(x / 2, x) \<in> measure (\<lambda>x. if 1 \<le> x then nat \<lfloor>x\<rfloor> else nat \<lfloor>1 / x\<rfloor> + 1)"
    if "2 \<le> x" for x :: real
    using that floor_half_less[of x] by simp
  show "(x * 2, x) \<in> measure (\<lambda>x. if 1 \<le> x then nat \<lfloor>x\<rfloor> else nat \<lfloor>1 / x\<rfloor> + 1)"
    if a: "\<not> 2 \<le> x" "0 < x \<and> x < 1" for x :: real
  proof (cases "1 \<le> x * 2")
    case True
    have "x * 2 < 2" using a by simp
    then have "\<lfloor>x * 2\<rfloor> = 1" using True by (simp add: floor_eq_iff)
    moreover have "1 \<le> 1 / x" using a by simp
    then have "1 \<le> \<lfloor>1 / x\<rfloor>" by (simp add: le_floor_iff)
    ultimately show ?thesis using True a by simp
  next
    case False
    then have "2 \<le> 1 / x" using a by (simp add: field_simps)
    then have h: "nat \<lfloor>1 / x / 2\<rfloor> < nat \<lfloor>1 / x\<rfloor>" by (rule floor_half_less)
    have e: "1 / x / 2 = 1 / (x * 2)" by simp
    have lt: "nat \<lfloor>1 / (x * 2)\<rfloor> < nat \<lfloor>1 / x\<rfloor>" using h unfolding e .
    have nx: "\<not> 1 \<le> x" using a by simp
    show ?thesis using False nx lt by simp
  qed
qed

declare binade_pos.simps [simp del]

definition binade :: "real \<Rightarrow> int" where
  "binade x = binade_pos \<bar>x\<bar>"

text \<open>The nearest integer, a tie going to the even one.\<close>

definition round_half_even :: "real \<Rightarrow> int" where
  "round_half_even y =
     (let f = \<lfloor>y\<rfloor>; r = y - real_of_int f
      in if r < 1 / 2 then f else if 1 / 2 < r then f + 1 else if even f then f else f + 1)"

text \<open>The nearest double: the spacing of the doubles around \<open>x\<close> is
  \<open>2 ^ (max e (-1022) - 52)\<close> for the binary exponent \<open>e\<close> of \<open>x\<close>.\<close>

definition round_double :: "real \<Rightarrow> real" where
  "round_double x =
     (if x = 0 then 0
      else (let q = 2 powi (max (binade x) (- 1022) - 52)
            in real_of_int (round_half_even (x / q)) * q))"

text \<open>The reals that a float can hold.\<close>

definition is_double :: "real \<Rightarrow> bool" where
  "is_double x \<longleftrightarrow> round_double x = x"

subsection \<open>Combat\<close>

text \<open>\<^verbatim>\<open>Enemy.is_dead\<close> and the property \<^verbatim>\<open>Enemy.missing_hp\<close>, the float
  \<^verbatim>\<open>self.max_hp - self.hp\<close>.\<close>

definition is_dead :: "'a enemy_scheme \<Rightarrow> bool" where
  "is_dead u = (hp u \<le> 0)"

definition missing_hp :: "'a enemy_scheme \<Rightarrow> real" where
  "missing_hp u = round_double (max_hp u - hp u)"

text \<open>\<^verbatim>\<open>Enemy.attack\<close>: the result is the pair \<^verbatim>\<open>(damage, is_crit)\<close> handed to
  \<^verbatim>\<open>hunter.receive_damage\<close>, which is code of hunters.py. The unit itself is not
  changed.\<close>

definition enemy_attack :: "real \<Rightarrow> 'a enemy_scheme \<Rightarrow> real \<times> bool" where
  "enemy_attack r u =
     (if r < special_chance u then (power' u * special_damage u, True)
      else (power' u, False))"

text \<open>\<^verbatim>\<open>Boss.attack\<close>: the attack of Enemy, then the enrage bookkeeping.\<close>

definition boss_attack :: "real \<Rightarrow> boss \<Rightarrow> boss \<times> (real \<times> bool)" where
  "boss_attack r b =
     (let hit = enemy_attack r b;
          b1 = b\<lparr>enrage_stacks := enrage_stacks b + 1\<rparr>;
          b2 = (if enrage_stacks b1 \<ge> 200 \<and> \<not> max_enrage b1
                then b1\<lparr>max_enrage := True, power' := power' b1 * 3, special_chance := 1\<rparr>
                else b1)
      in (b2, hit))"

text \<open>The property \<^verbatim>\<open>Boss.speed\<close>.\<close>

definition boss_speed :: "boss \<Rightarrow> real" where
  "boss_speed b = max (speed b - enrage_effect b * real_of_int (enrage_stacks b)) 0.5"

text \<open>\<^verbatim>\<open>Enemy.on_death\<close>.\<close>

definition enemy_on_death :: "'a enemy_scheme \<Rightarrow> sim \<Rightarrow> sim" where
  "enemy_on_death u s =
     (let s1 = s\<lparr>sim_hunter := (sim_hunter s)\<lparr>total_kills := total_kills (sim_hunter s) + 1\<rparr>,
                 journal := journal s @ [Kills_Incremented]\<rparr>;
          s2 = s1\<lparr>queue := filter (\<lambda>(p1, p2, u). u \<noteq> ''enemy'') (queue s1)\<rparr>;
          s3 = s2\<lparr>queue := heapify (queue s2), journal := journal s2 @ [Queue_Purged]\<rparr>
      in s3)"

text \<open>\<^verbatim>\<open>Boss.on_death\<close>: \<^verbatim>\<open>super().on_death()\<close>, then the append to the log.\<close>

definition boss_on_death :: "boss \<Rightarrow> sim \<Rightarrow> sim" where
  "boss_on_death b s =
     (let s1 = enemy_on_death b s
      in s1\<lparr>sim_hunter := (sim_hunter s1)\<lparr>enrage_log := enrage_log (sim_hunter s1) @ [enrage_stacks b]\<rparr>,
            journal := journal s1 @ [Enrage_Logged (enrage_stacks b)]\<rparr>)"

text \<open>\<^verbatim>\<open>Enemy.receive_damage\<close>. The call \<^verbatim>\<open>self.on_death()\<close> is dispatched on the
  class of the unit, so the death handler is a parameter. The draw \<open>r\<close> is only
  compared when the damage is not reflected.\<close>

definition receive_damage ::
  "('a enemy_scheme \<Rightarrow> sim \<Rightarrow> sim) \<Rightarrow> real \<Rightarrow> bool \<Rightarrow> real
     \<Rightarrow> 'a enemy_scheme \<times> sim \<Rightarrow> 'a enemy_scheme \<times> sim" where
  "receive_damage on_death damage is_reflected r us =
     (case us of (u, s) \<Rightarrow>
        if \<not> is_reflected \<and> r < evade_chance u then (u, s)
        else (let mitigated_damage = damage * (1 - damage_reduction u);
                  u1 = u\<lparr>hp := hp u - mitigated_damage\<rparr>
              in if is_dead u1 then (u1, on_death u1 s) else (u1, s)))"

text \<open>\<^verbatim>\<open>Enemy.heal_hp\<close>: \<^verbatim>\<open>self.hp += effective_heal\<close> stores the float sum. The
  source string is only logged.\<close>

definition heal_hp :: "real \<Rightarrow> string \<Rightarrow> 'a enemy_scheme \<Rightarrow> 'a enemy_scheme" where
  "heal_hp val source u =
     (let effective_heal = min val (missing_hp u)
      in u\<lparr>hp := round_double (hp u + effective_heal)\<rparr>)"


text \<open>\<^verbatim>\<open>Enemy.stun\<close>: the first entry of kind enemy (IndexError when there is none),
  \<^verbatim>\<open>list.remove\<close> of its first occurrence, then \<^verbatim>\<open>heappush\<close> of the later entry.\<close>

definition stun :: "real \<Rightarrow> sim \<Rightarrow> error + sim" where
  "stun duration s =
     (case filter (\<lambda>(p1, p2, u). u = ''enemy'') (queue s) of
        [] \<Rightarrow> Inl IndexError
      | qe # _ \<Rightarrow>
          Inr (s\<lparr>queue := heappush (remove1 qe (queue s))
                                    (fst qe + duration, fst (snd qe), snd (snd qe))\<rparr>))"


subsection \<open>Runs of attacks\<close>

text \<open>The boss attacks once per draw of the list, in order.\<close>

definition boss_attacks :: "real list \<Rightarrow> boss \<Rightarrow> boss" where
  "boss_attacks rs b = foldl (\<lambda>b r. fst (boss_attack r b)) b rs"

subsection \<open>The scaling past stage 150 as the specification words it\<close>

text \<open>The specification describes the third regime as a compounding multiplier that
  depends on the step \<^verbatim>\<open>(stage-150)//50\<close>. With that step in the place of the floor
  term of \<^verbatim>\<open>fetch_stats\<close> the multiplier of power and regen reads as follows.\<close>

definition spec_step :: "int \<Rightarrow> int" where
  "spec_step stage = (stage - 150) div 50"

definition spec_compounding :: "int \<Rightarrow> real" where
  "spec_compounding stage =
     1 + real_of_int (stage - 149) * (0.006 + 0.006 * real_of_int (spec_step stage))"

subsection \<open>Predicates used in the proofs\<close>

text \<open>Position \<open>p\<close> lies in the subtree of the implicit binary tree rooted at \<open>i\<close>.\<close>

inductive desc :: "nat \<Rightarrow> nat \<Rightarrow> bool" where
  desc_refl: "desc i i"
| desc_left: "desc i p \<Longrightarrow> desc i (2 * p + 1)"
| desc_right: "desc i p \<Longrightarrow> desc i (2 * p + 2)"

text \<open>The heap invariant restricted to parents at index \<open>i\<close> or later.\<close>

definition heap_from :: "nat \<Rightarrow> 'a::linorder list \<Rightarrow> bool" where
  "heap_from i h \<longleftrightarrow>
     (\<forall>k. 0 < k \<and> k < length h \<and> i \<le> (k - 1) div 2 \<longrightarrow> h ! ((k - 1) div 2) \<le> h ! k)"

text \<open>The state of the loop of \<^verbatim>\<open>_siftup\<close>: the value at \<open>pos\<close> is stale (a hole), every
  other parent-child pair below \<open>i\<close> is in order, and the parent of the hole is not above
  the children of the hole.\<close>

definition hole_heap :: "nat \<Rightarrow> 'a::linorder list \<Rightarrow> nat \<Rightarrow> bool" where
  "hole_heap i h pos \<longleftrightarrow>
     desc i pos \<and> pos < length h \<and>
     (\<forall>k. 0 < k \<and> k < length h \<and> i \<le> (k - 1) div 2 \<and> k \<noteq> pos \<and> (k - 1) div 2 \<noteq> pos
          \<longrightarrow> h ! ((k - 1) div 2) \<le> h ! k) \<and>
     (pos \<noteq> i \<longrightarrow>
        (\<forall>c. 0 < c \<and> c < length h \<and> (c - 1) div 2 = pos \<longrightarrow> h ! ((pos - 1) div 2) \<le> h ! c))"

text \<open>The state of the loop of \<^verbatim>\<open>_siftdown\<close>: with \<open>x\<close> written at \<open>pos\<close>, every pair is
  in order except perhaps \<open>pos\<close> and its parent.\<close>

definition sift_inv :: "nat \<Rightarrow> 'a::linorder list \<Rightarrow> 'a \<Rightarrow> nat \<Rightarrow> bool" where
  "sift_inv i h x pos \<longleftrightarrow>
     desc i pos \<and> pos < length h \<and>
     (\<forall>k. 0 < k \<and> k < length h \<and> i \<le> (k - 1) div 2 \<and> k \<noteq> pos
          \<longrightarrow> (h[pos := x]) ! ((k - 1) div 2) \<le> (h[pos := x]) ! k) \<and>
     (pos \<noteq> i \<longrightarrow>
        (\<forall>c. 0 < c \<and> c < length h \<and> (c - 1) div 2 = pos \<longrightarrow> h ! ((pos - 1) div 2) \<le> h ! c))"

text \<open>Hooks that never lift a capped special stat above its cap.\<close>

definition keeps_caps :: "(enemy \<Rightarrow> enemy) \<Rightarrow> bool" where
  "keeps_caps f \<longleftrightarrow>
     (\<forall>u. special_chance u \<le> 0.25 \<and> special_damage u \<le> 2.5
          \<longrightarrow> special_chance (f u) \<le> 0.25 \<and> special_damage (f u) \<le> 2.5)"

definition hooks_keep_caps :: "creation_hooks \<Rightarrow> bool" where
  "hooks_keep_caps hooks \<longleftrightarrow>
     keeps_caps (apply_pog hooks) \<and> keeps_caps (apply_ood hooks) \<and>
     keeps_caps (apply_snek hooks) \<and> keeps_caps (apply_medusa hooks)"



subsection \<open>Concrete hunters, units and queues\<close>

definition plain_hunter :: "hunter_variant \<Rightarrow> hunter" where
  "plain_hunter v =
     \<lparr> variant = v, talents = {}, attributes = {}, total_kills = 0, enrage_log = [] \<rparr>"

definition talented_hunter :: "hunter_variant \<Rightarrow> hunter" where
  "talented_hunter v =
     \<lparr> variant = v, talents = {''presence_of_god'', ''omen_of_defeat''},
       attributes = {''soul_of_snek''}, total_kills = 0, enrage_log = [] \<rparr>"

definition sample_hooks :: creation_hooks where
  "sample_hooks =
     \<lparr> apply_pog = (\<lambda>u. u\<lparr>hp := max_hp u * 0.9\<rparr>),
       apply_ood = (\<lambda>u. u\<lparr>regen := regen u * 0.8\<rparr>),
       apply_snek = (\<lambda>u. u\<lparr>regen := regen u * 0.9\<rparr>),
       apply_medusa = (\<lambda>u. u\<lparr>regen := regen u - 1\<rparr>) \<rparr>"

definition sample_queue :: "entry list" where
  "sample_queue = [(10, 2, ''enemy''), (12, 1, ''hunter''), (11, 3, ''regen'')]"

definition sample_sim :: sim where
  "sample_sim = \<lparr> queue = sample_queue, sim_hunter = plain_hunter Borge, journal = [] \<rparr>"

definition sample_enemy :: enemy where
  "sample_enemy =
     \<lparr> hp = 5, power' = 3, regen = 2, special_chance = 0.1, special_damage = 1.5,
       damage_reduction = 0, evade_chance = 1, speed = 4,
       name = ''E1'', max_hp = 20, stun_duration = 0 \<rparr>"

text \<open>An Enemy of stage 101 under Borge that has taken two hits, of 697.5 and of 433.4.
  The constructor stores \<^verbatim>\<open>(9 + 101 * 4) * 2.85\<close> in hp and max_hp, the double
  \<open>5176720645894963 / 2 ^ 42\<close> (1177.05 when printed); \<^verbatim>\<open>receive_damage\<close> subtracts
  each hit from hp, which leaves the double \<open>405939692974899 / 2 ^ 43\<close>
  (46.14999999999998 when printed). The other fields are the stats of stage 101.\<close>

definition worn_enemy :: enemy where
  "worn_enemy =
     \<lparr> hp = 405939692974899 / 8796093022208, power' = 208.62, regen = 8.416,
       special_chance = 0.0726, special_damage = 2.020525,
       damage_reduction = 0, evade_chance = 0.004, speed = 3.924,
       name = ''E101'', max_hp = 5176720645894963 / 4398046511104, stun_duration = 0 \<rparr>"

text \<open>The boss that \<^verbatim>\<open>Boss.__init__\<close> builds for Borge, before any attack.\<close>

definition sample_boss :: boss where
  "sample_boss =
     \<lparr> hp = 36810, power' = 263.18, regen = 15.21, special_chance = 0.1122,
       special_damage = 2.26, damage_reduction = 0.05, evade_chance = 0.004, speed = 9.50,
       name = ''B1'', max_hp = 36810, stun_duration = 0,
       enrage_stacks = 0, max_enrage = False, enrage_effect = 0.0475 \<rparr>"

section \<open>heapq: heapify and heappush keep the elements and build a heap\<close>

subsection \<open>Positions in the implicit tree\<close>

lemma desc_le: "desc i p \<Longrightarrow> i \<le> p"
  by (induction rule: desc.induct) auto

lemma desc_parent: "desc i p \<Longrightarrow> p \<noteq> i \<Longrightarrow> desc i ((p - 1) div 2)"
  by (induction rule: desc.induct) auto

lemma desc_child: "desc i p \<Longrightarrow> 0 < c \<Longrightarrow> (c - 1) div 2 = p \<Longrightarrow> desc i c"
proof -
  assume d: "desc i p" and c: "0 < c" "(c - 1) div 2 = p"
  then have "c = 2 * p + 1 \<or> c = 2 * p + 2" by arith
  with desc_left[OF d] desc_right[OF d] show ?thesis by auto
qed

lemma desc_zero: "desc 0 p"
proof (induction p rule: less_induct)
  case (less p)
  show ?case
  proof (cases "p = 0")
    case True then show ?thesis by (simp add: desc_refl)
  next
    case False
    then have "desc 0 ((p - 1) div 2)" by (intro less.IH) arith
    then show ?thesis using False by (intro desc_child[of 0 "(p - 1) div 2" p]) auto
  qed
qed

lemma is_heap_iff: "is_heap h \<longleftrightarrow> heap_from 0 h"
  by (auto simp: is_heap_def heap_from_def list_all_iff)

lemma heap_from_half: "heap_from (length h div 2) h"
  unfolding heap_from_def by (intro allI impI) arith

lemma smaller_child_props:
  assumes "2 * pos + 1 < length h"
  shows "smaller_child h pos < length h"
    and "(smaller_child h pos - 1) div 2 = pos"
    and "pos < smaller_child h pos"
    and "\<And>d. 0 < d \<Longrightarrow> d < length h \<Longrightarrow> (d - 1) div 2 = pos \<Longrightarrow> h ! smaller_child h pos \<le> h ! d"
proof -
  show "smaller_child h pos < length h" using assms by (simp add: smaller_child_def Let_def)
  show "(smaller_child h pos - 1) div 2 = pos" by (simp add: smaller_child_def Let_def)
  show "pos < smaller_child h pos" by (simp add: smaller_child_def Let_def)
  fix d assume d: "0 < d" "d < length h" "(d - 1) div 2 = pos"
  then have "d = 2 * pos + 1 \<or> d = 2 * pos + 2" by arith
  then show "h ! smaller_child h pos \<le> h ! d"
    using d by (auto simp: smaller_child_def Let_def)
qed

lemma hole_heap_start: "heap_from (Suc i) h \<Longrightarrow> i < length h \<Longrightarrow> hole_heap i h i"
  unfolding hole_heap_def heap_from_def
  by (auto simp: desc_refl Suc_le_eq order_le_less)

lemma hole_heap_step:
  assumes inv: "hole_heap i h pos" and lt: "2 * pos + 1 < length h"
  shows "hole_heap i (h[pos := h ! smaller_child h pos]) (smaller_child h pos)"
proof -
  let ?c = "smaller_child h pos"
  let ?h = "h[pos := h ! ?c]"
  note sc = smaller_child_props[OF lt]
  from inv have d: "desc i pos" and pl: "pos < length h"
    and b: "\<And>k. 0 < k \<Longrightarrow> k < length h \<Longrightarrow> i \<le> (k - 1) div 2 \<Longrightarrow> k \<noteq> pos
                \<Longrightarrow> (k - 1) div 2 \<noteq> pos \<Longrightarrow> h ! ((k - 1) div 2) \<le> h ! k"
    and c: "\<And>c. pos \<noteq> i \<Longrightarrow> 0 < c \<Longrightarrow> c < length h \<Longrightarrow> (c - 1) div 2 = pos
                \<Longrightarrow> h ! ((pos - 1) div 2) \<le> h ! c"
    unfolding hole_heap_def by blast+
  have ip: "i \<le> pos" using d by (rule desc_le)
  have cpos: "0 < ?c" using sc(3) by simp
  have dc: "desc i ?c" using d cpos sc(2) by (rule desc_child)
  have B: "?h ! ((k - 1) div 2) \<le> ?h ! k"
    if k: "0 < k" "k < length ?h" "i \<le> (k - 1) div 2" "k \<noteq> ?c" "(k - 1) div 2 \<noteq> ?c" for k
  proof -
    consider (self) "k = pos" | (child) "k \<noteq> pos" "(k - 1) div 2 = pos"
      | (other) "k \<noteq> pos" "(k - 1) div 2 \<noteq> pos" by blast
    then show ?thesis
    proof cases
      case self
      with k have ne: "pos \<noteq> i" by arith
      have "(pos - 1) div 2 \<noteq> pos" using self k(1) by arith
      moreover have "h ! ((pos - 1) div 2) \<le> h ! ?c" using c[OF ne cpos sc(1) sc(2)] .
      ultimately show ?thesis using self pl by simp
    next
      case child
      have "h ! ?c \<le> h ! k" using sc(4)[of k] k child by simp
      then show ?thesis using child pl by simp
    next
      case other
      then show ?thesis using b[of k] k by simp
    qed
  qed
  have C: "?h ! ((?c - 1) div 2) \<le> ?h ! e"
    if e: "0 < e" "e < length ?h" "(e - 1) div 2 = ?c" for e
  proof -
    have "e \<noteq> pos" using e sc(3) by arith
    moreover have "h ! ?c \<le> h ! e"
      using b[of e] e sc(3) ip \<open>e \<noteq> pos\<close> by simp
    ultimately show ?thesis using pl sc(2) by simp
  qed
  show ?thesis
    unfolding hole_heap_def using dc sc(1) B C by simp
qed

lemma siftup_loop_hole:
  "hole_heap i h pos \<Longrightarrow> siftup_loop h pos = (h', leaf)
     \<Longrightarrow> hole_heap i h' leaf \<and> \<not> 2 * leaf + 1 < length h'"
proof (induction h pos rule: siftup_loop.induct)
  case (1 heap pos)
  show ?case
  proof (cases "2 * pos + 1 < length heap")
    case True
    have step: "hole_heap i (heap[pos := heap ! smaller_child heap pos]) (smaller_child heap pos)"
      using "1.prems"(1) True by (rule hole_heap_step)
    have eq: "siftup_loop (heap[pos := heap ! smaller_child heap pos]) (smaller_child heap pos) = (h', leaf)"
      using "1.prems"(2) True by (subst (asm) siftup_loop.simps) simp
    show ?thesis using "1.IH"[OF True step eq] .
  next
    case False
    then have "h' = heap" "leaf = pos"
      using "1.prems"(2) by (subst (asm) siftup_loop.simps, simp)+
    then show ?thesis using False "1.prems"(1) by simp
  qed
qed

lemma mset_update_chain:
  "p < length h \<Longrightarrow> q < length h \<Longrightarrow> p \<noteq> q
     \<Longrightarrow> mset (h[p := h ! q, q := x]) = mset (h[p := x])"
  using mset_swap[of q "h[p := x]" p] by simp

lemma siftup_loop_mset:
  "pos < length h \<Longrightarrow> siftup_loop h pos = (h', leaf)
     \<Longrightarrow> length h' = length h \<and> leaf < length h \<and> mset (h'[leaf := x]) = mset (h[pos := x])"
proof (induction h pos rule: siftup_loop.induct)
  case (1 heap pos)
  show ?case
  proof (cases "2 * pos + 1 < length heap")
    case True
    let ?c = "smaller_child heap pos"
    note sc = smaller_child_props[OF True]
    have eq: "siftup_loop (heap[pos := heap ! ?c]) ?c = (h', leaf)"
      using "1.prems"(2) True by (subst (asm) siftup_loop.simps) simp
    have ih: "length h' = length heap \<and> leaf < length heap
        \<and> mset (h'[leaf := x]) = mset (heap[pos := heap ! ?c, ?c := x])"
      using "1.IH"[OF True _ eq] sc(1) by simp
    have "mset (heap[pos := heap ! ?c, ?c := x]) = mset (heap[pos := x])"
      using sc(1) sc(3) "1.prems"(1) by (intro mset_update_chain) auto
    then show ?thesis using ih by simp
  next
    case False
    then have "h' = heap" "leaf = pos"
      using "1.prems"(2) by (subst (asm) siftup_loop.simps, simp)+
    then show ?thesis using "1.prems"(1) by simp
  qed
qed

lemma siftdown_loop_mset:
  "pos < length h \<Longrightarrow> length (siftdown_loop h s x pos) = length h
      \<and> mset (siftdown_loop h s x pos) = mset (h[pos := x])"
proof (induction h s x pos rule: siftdown_loop.induct)
  case (1 heap startpos newitem pos)
  let ?pp = "(pos - 1) div 2"
  show ?case
  proof (cases "pos > startpos \<and> newitem < heap ! ?pp")
    case True
    then have lt: "?pp < pos" by arith
    have eq: "siftdown_loop heap startpos newitem pos
               = siftdown_loop (heap[pos := heap ! ?pp]) startpos newitem ?pp"
      using True by (subst siftdown_loop.simps) simp
    have ih: "length (siftdown_loop (heap[pos := heap ! ?pp]) startpos newitem ?pp) = length heap
        \<and> mset (siftdown_loop (heap[pos := heap ! ?pp]) startpos newitem ?pp)
            = mset (heap[pos := heap ! ?pp, ?pp := newitem])"
      using "1.IH"[of] True lt "1.prems" by simp
    have "mset (heap[pos := heap ! ?pp, ?pp := newitem]) = mset (heap[pos := newitem])"
      using lt "1.prems" by (intro mset_update_chain) auto
    then show ?thesis using ih eq by simp
  next
    case False
    then have "siftdown_loop heap startpos newitem pos = heap[pos := newitem]"
      by (subst siftdown_loop.simps) auto
    then show ?thesis by simp
  qed
qed

lemma sift_inv_exit:
  assumes inv: "sift_inv i h x pos"
    and stop: "\<not> (pos > i \<and> x < h ! ((pos - 1) div 2))"
  shows "heap_from i (h[pos := x])"
  unfolding heap_from_def
proof (intro allI impI)
  fix k
  assume k: "0 < k \<and> k < length (h[pos := x]) \<and> i \<le> (k - 1) div 2"
  from inv have d: "desc i pos" and pl: "pos < length h"
    and b: "\<And>k. 0 < k \<Longrightarrow> k < length h \<Longrightarrow> i \<le> (k - 1) div 2 \<Longrightarrow> k \<noteq> pos
                \<Longrightarrow> (h[pos := x]) ! ((k - 1) div 2) \<le> (h[pos := x]) ! k"
    unfolding sift_inv_def by blast+
  show "h[pos := x] ! ((k - 1) div 2) \<le> h[pos := x] ! k"
  proof (cases "k = pos")
    case False
    then show ?thesis using b[of k] k by simp
  next
    case True
    with k have gt: "i < pos" by arith
    then have "\<not> x < h ! ((pos - 1) div 2)" using stop by simp
    moreover have "(pos - 1) div 2 \<noteq> pos" using gt by arith
    ultimately show ?thesis using True pl by simp
  qed
qed

lemma sift_inv_step:
  assumes inv: "sift_inv i h x pos"
    and go: "pos > i" "x < h ! ((pos - 1) div 2)"
  shows "sift_inv i (h[pos := h ! ((pos - 1) div 2)]) x ((pos - 1) div 2)"
proof -
  let ?pp = "(pos - 1) div 2"
  let ?h = "h[pos := h ! ?pp]"
  from inv have d: "desc i pos" and pl: "pos < length h"
    and b: "\<And>k. 0 < k \<Longrightarrow> k < length h \<Longrightarrow> i \<le> (k - 1) div 2 \<Longrightarrow> k \<noteq> pos
                \<Longrightarrow> (h[pos := x]) ! ((k - 1) div 2) \<le> (h[pos := x]) ! k"
    and c: "\<And>c. pos \<noteq> i \<Longrightarrow> 0 < c \<Longrightarrow> c < length h \<Longrightarrow> (c - 1) div 2 = pos
                \<Longrightarrow> h ! ?pp \<le> h ! c"
    unfolding sift_inv_def by blast+
  have ne: "pos \<noteq> i" and lt: "?pp < pos" using go(1) by arith+
  have dp: "desc i ?pp" using d ne by (rule desc_parent)
  have ipp: "i \<le> ?pp" using dp by (rule desc_le)
  have ppl: "?pp < length h" using lt pl by simp
  have B: "(?h[?pp := x]) ! ((k - 1) div 2) \<le> (?h[?pp := x]) ! k"
    if k: "0 < k" "k < length ?h" "i \<le> (k - 1) div 2" "k \<noteq> ?pp" for k
  proof -
    consider (self) "k = pos" | (child) "k \<noteq> pos" "(k - 1) div 2 = pos"
      | (sibling) "k \<noteq> pos" "(k - 1) div 2 = ?pp"
      | (other) "k \<noteq> pos" "(k - 1) div 2 \<noteq> pos" "(k - 1) div 2 \<noteq> ?pp" by blast
    then show ?thesis
    proof cases
      case self
      then show ?thesis using go(2) lt pl ppl by simp
    next
      case child
      have "h ! ?pp \<le> h ! k" using c[OF ne k(1) _ child(2)] k(2) by simp
      then show ?thesis using child k lt pl ppl by simp
    next
      case sibling
      have "(h[pos := x]) ! ((k - 1) div 2) \<le> (h[pos := x]) ! k"
        using b[of k] k sibling by simp
      then have "h ! ?pp \<le> h ! k" using sibling lt pl by simp
      then have "x \<le> h ! k" using go(2) by simp
      then show ?thesis using sibling k lt pl ppl by simp
    next
      case other
      have "(h[pos := x]) ! ((k - 1) div 2) \<le> (h[pos := x]) ! k"
        using b[of k] k other by simp
      then show ?thesis using other k by simp
    qed
  qed
  have C: "?h ! ((?pp - 1) div 2) \<le> ?h ! e"
    if e: "?pp \<noteq> i" "0 < e" "e < length ?h" "(e - 1) div 2 = ?pp" for e
  proof -
    have pp0: "0 < ?pp" using e(1) ipp by simp
    then have gl: "(?pp - 1) div 2 < ?pp" by arith
    have "desc i ((?pp - 1) div 2)" using dp e(1) by (rule desc_parent)
    then have "i \<le> (?pp - 1) div 2" by (rule desc_le)
    then have "(h[pos := x]) ! ((?pp - 1) div 2) \<le> (h[pos := x]) ! ?pp"
      using b[of ?pp] pp0 ppl lt by simp
    then have up: "h ! ((?pp - 1) div 2) \<le> h ! ?pp" using gl lt by simp
    show ?thesis
    proof (cases "e = pos")
      case True
      then show ?thesis using up gl lt pl by simp
    next
      case False
      have "(h[pos := x]) ! ((e - 1) div 2) \<le> (h[pos := x]) ! e"
        using b[of e] e ipp False by simp
      then have "h ! ?pp \<le> h ! e" using e(4) False lt by simp
      then show ?thesis using up False gl lt by simp
    qed
  qed
  show ?thesis
    unfolding sift_inv_def using dp ppl B C by simp
qed

lemma siftdown_loop_heap:
  "sift_inv i h x pos \<Longrightarrow> heap_from i (siftdown_loop h i x pos)"
proof (induction h i x pos rule: siftdown_loop.induct)
  case (1 heap startpos newitem pos)
  let ?pp = "(pos - 1) div 2"
  show ?case
  proof (cases "pos > startpos \<and> newitem < heap ! ?pp")
    case True
    have eq: "siftdown_loop heap startpos newitem pos
               = siftdown_loop (heap[pos := heap ! ?pp]) startpos newitem ?pp"
      using True by (subst siftdown_loop.simps) simp
    have "sift_inv startpos (heap[pos := heap ! ?pp]) newitem ?pp"
      using "1.prems" True by (intro sift_inv_step) auto
    then show ?thesis using "1.IH" True eq by simp
  next
    case False
    then have "siftdown_loop heap startpos newitem pos = heap[pos := newitem]"
      by (subst siftdown_loop.simps) auto
    then show ?thesis using sift_inv_exit[OF "1.prems" False] by simp
  qed
qed

lemma hole_heap_leaf:
  assumes "hole_heap i h leaf" and "\<not> 2 * leaf + 1 < length h"
  shows "sift_inv i (h[leaf := x]) x leaf"
proof -
  from assms(1) have d: "desc i leaf" and pl: "leaf < length h"
    and b: "\<And>k. 0 < k \<Longrightarrow> k < length h \<Longrightarrow> i \<le> (k - 1) div 2 \<Longrightarrow> k \<noteq> leaf
                \<Longrightarrow> (k - 1) div 2 \<noteq> leaf \<Longrightarrow> h ! ((k - 1) div 2) \<le> h ! k"
    unfolding hole_heap_def by blast+
  have nochild: "(k - 1) div 2 \<noteq> leaf" if "0 < k" "k < length h" for k
    using that assms(2) by arith
  have B: "(h[leaf := x, leaf := x]) ! ((k - 1) div 2) \<le> (h[leaf := x, leaf := x]) ! k"
    if k: "0 < k" "k < length h" "i \<le> (k - 1) div 2" "k \<noteq> leaf" for k
    using b[of k] k nochild[of k] by simp
  have C: "h[leaf := x] ! ((leaf - 1) div 2) \<le> h[leaf := x] ! c"
    if c: "0 < c" "c < length h" "(c - 1) div 2 = leaf" for c
    using nochild[of c] c by simp
  show ?thesis
    unfolding sift_inv_def
  proof (intro conjI allI impI)
    show "desc i leaf" by fact
    show "leaf < length (h[leaf := x])" using pl by simp
  next
    fix k
    assume "0 < k \<and> k < length (h[leaf := x]) \<and> i \<le> (k - 1) div 2 \<and> k \<noteq> leaf"
    then show "h[leaf := x, leaf := x] ! ((k - 1) div 2) \<le> h[leaf := x, leaf := x] ! k"
      using B[of k] by simp
  next
    fix c
    assume "leaf \<noteq> i" and "0 < c \<and> c < length (h[leaf := x]) \<and> (c - 1) div 2 = leaf"
    then show "h[leaf := x] ! ((leaf - 1) div 2) \<le> h[leaf := x] ! c"
      using C[of c] by simp
  qed
qed

lemma siftup_heap:
  assumes hf: "heap_from (Suc i) h" and il: "i < length h"
  shows "heap_from i (siftup h i)" and "length (siftup h i) = length h"
    and "mset (siftup h i) = mset h"
proof -
  obtain h1 leaf where sl: "siftup_loop h i = (h1, leaf)" by (cases "siftup_loop h i")
  let ?x = "h ! i"
  have start: "hole_heap i h i" using hf il by (rule hole_heap_start)
  from siftup_loop_hole[OF start sl]
  have hh: "hole_heap i h1 leaf" and leaf: "\<not> 2 * leaf + 1 < length h1" by simp_all
  from siftup_loop_mset[OF il sl, of ?x]
  have len: "length h1 = length h" and ll: "leaf < length h"
    and ms: "mset (h1[leaf := ?x]) = mset h" by simp_all
  have su: "siftup h i = siftdown_loop (h1[leaf := ?x]) i ?x leaf"
    using sl ll len by (simp add: siftup_def siftdown_def Let_def)
  have "sift_inv i (h1[leaf := ?x]) ?x leaf" using hh leaf by (rule hole_heap_leaf)
  then show "heap_from i (siftup h i)" unfolding su by (rule siftdown_loop_heap)
  have "leaf < length (h1[leaf := ?x])" using ll len by simp
  from siftdown_loop_mset[OF this, of i ?x]
  show "length (siftup h i) = length h" and "mset (siftup h i) = mset h"
    unfolding su using len ms by simp_all
qed

lemma heapify_aux:
  "heap_from m h \<Longrightarrow> m \<le> length h div 2
     \<Longrightarrow> heap_from 0 (foldl siftup h (rev [0..<m]))
         \<and> mset (foldl siftup h (rev [0..<m])) = mset h"
proof (induction m arbitrary: h)
  case 0
  then show ?case by simp
next
  case (Suc m)
  have il: "m < length h" using Suc.prems(2) by arith
  note su = siftup_heap[OF Suc.prems(1) il]
  have "m \<le> length (siftup h m) div 2" using Suc.prems(2) su(2) by simp
  from Suc.IH[OF su(1) this] show ?case using su(3) by simp
qed

lemma heapify_is_heap: "is_heap (heapify x)"
  and heapify_mset: "mset (heapify x) = mset x"
  using heapify_aux[OF heap_from_half[of x], of] by (simp_all add: heapify_def is_heap_iff)

lemma siftdown_mset: "pos < length h \<Longrightarrow> mset (siftdown h s pos) = mset h"
  using siftdown_loop_mset[of pos h s "h ! pos"] by (simp add: siftdown_def)

lemma heappush_mset: "mset (heappush h x) = add_mset x (mset h)"
  by (simp add: heappush_def siftdown_mset)

lemma heappush_is_heap:
  assumes "is_heap h"
  shows "is_heap (heappush h x)"
proof -
  have hf: "heap_from 0 h" using assms by (simp add: is_heap_iff)
  let ?g = "h @ [x]"
  have "sift_inv 0 ?g x (length h)"
    unfolding sift_inv_def
  proof (intro conjI allI impI)
    show "desc 0 (length h)" by (rule desc_zero)
    show "length h < length ?g" by simp
  next
    fix k
    assume k: "0 < k \<and> k < length ?g \<and> 0 \<le> (k - 1) div 2 \<and> k \<noteq> length h"
    then have kl: "k < length h" by simp
    then have pl: "(k - 1) div 2 < length h" by arith
    have "h ! ((k - 1) div 2) \<le> h ! k"
      using hf k kl unfolding heap_from_def by simp
    then show "?g[length h := x] ! ((k - 1) div 2) \<le> ?g[length h := x] ! k"
      using kl pl by (simp add: nth_append)
  next
    fix c
    assume "length h \<noteq> 0" and c: "0 < c \<and> c < length ?g \<and> (c - 1) div 2 = length h"
    then have "0 < c \<and> c < Suc (length h) \<and> (c - 1) div 2 = length h" by simp
    then have False by arith
    then show "?g ! ((length h - 1) div 2) \<le> ?g ! c" ..
  qed
  then have "heap_from 0 (siftdown_loop ?g 0 x (length h))" by (rule siftdown_loop_heap)
  then show ?thesis by (simp add: heappush_def siftdown_def is_heap_iff)
qed

section \<open>Construction: the caps on the special stats\<close>

lemma create_caps:
  "special_chance (create nm st) = min (special_chance st) (1 / 4)"
  "special_damage (create nm st) = min (special_damage st) (5 / 2)"
  by (simp_all add: create_def)

lemma on_create_caps:
  assumes "hooks_keep_caps hooks"
    and "special_chance u \<le> 1 / 4 \<and> special_damage u \<le> 5 / 2"
  shows "special_chance (on_create hooks h u) \<le> 1 / 4 \<and> special_damage (on_create hooks h u) \<le> 5 / 2"
proof -
  from assms(1) have k: "\<And>u. special_chance u \<le> 1 / 4 \<and> special_damage u \<le> 5 / 2
      \<Longrightarrow> special_chance (apply_pog hooks u) \<le> 1 / 4 \<and> special_damage (apply_pog hooks u) \<le> 5 / 2"
     "\<And>u. special_chance u \<le> 1 / 4 \<and> special_damage u \<le> 5 / 2
      \<Longrightarrow> special_chance (apply_ood hooks u) \<le> 1 / 4 \<and> special_damage (apply_ood hooks u) \<le> 5 / 2"
     "\<And>u. special_chance u \<le> 1 / 4 \<and> special_damage u \<le> 5 / 2
      \<Longrightarrow> special_chance (apply_snek hooks u) \<le> 1 / 4 \<and> special_damage (apply_snek hooks u) \<le> 5 / 2"
     "\<And>u. special_chance u \<le> 1 / 4 \<and> special_damage u \<le> 5 / 2
      \<Longrightarrow> special_chance (apply_medusa hooks u) \<le> 1 / 4 \<and> special_damage (apply_medusa hooks u) \<le> 5 / 2"
    unfolding hooks_keep_caps_def keeps_caps_def by simp_all
  let ?u1 = "if ''presence_of_god'' \<in> talents h then apply_pog hooks u else u"
  let ?u2 = "if ''omen_of_defeat'' \<in> talents h then apply_ood hooks ?u1 else ?u1"
  let ?u3 = "if ''soul_of_snek'' \<in> attributes h then apply_snek hooks ?u2 else ?u2"
  let ?u4 = "if ''gift_of_medusa'' \<in> attributes h then apply_medusa hooks ?u3 else ?u3"
  have 1: "special_chance ?u1 \<le> 1 / 4 \<and> special_damage ?u1 \<le> 5 / 2"
    using k(1)[OF assms(2)] assms(2) by (cases "''presence_of_god'' \<in> talents h") simp_all
  have 2: "special_chance ?u2 \<le> 1 / 4 \<and> special_damage ?u2 \<le> 5 / 2"
    using k(2)[OF 1] 1 by (cases "''omen_of_defeat'' \<in> talents h") simp_all
  have 3: "special_chance ?u3 \<le> 1 / 4 \<and> special_damage ?u3 \<le> 5 / 2"
    using k(3)[OF 2] 2 by (cases "''soul_of_snek'' \<in> attributes h") simp_all
  have 4: "special_chance ?u4 \<le> 1 / 4 \<and> special_damage ?u4 \<le> 5 / 2"
    using k(4)[OF 3] 3 by (cases "''gift_of_medusa'' \<in> attributes h") simp_all
  have "on_create hooks h u = ?u4" by (simp add: on_create_def Let_def)
  then show ?thesis using 4 by simp
qed

lemma fetch_stats_defined:
  "variant h \<noteq> Other \<Longrightarrow> \<exists>st. enemy_fetch_stats h stage = Inr st"
  "variant h \<noteq> Other \<Longrightarrow> \<exists>st. boss_fetch_stats h stage = Inr st"
  by (cases "variant h"; simp add: enemy_fetch_stats_def boss_fetch_stats_def)+

lemma sample_hooks_keep_caps: "hooks_keep_caps sample_hooks"
  by (simp add: hooks_keep_caps_def keeps_caps_def sample_hooks_def)

text \<open>
  C2. For a hunter that is Borge or Ozzy, every stage and both kinds of unit, the stats are
  generated and \<^verbatim>\<open>__create__\<close> stores \<open>min special_chance 0.25\<close> and
  \<open>min special_damage 2.5\<close>, whatever the formula or the boss table gives; so the unit has
  special chance at most 0.25 and special damage at most 2.5. The unit that the constructor
  returns keeps these bounds when the four creation hooks of the hunter (code outside this
  module) do not lift a capped stat above its cap.
\<close>

theorem special_caps_at_construction:
  assumes "variant h \<noteq> Other"
  shows "(\<exists>st. enemy_fetch_stats h stage = Inr st
            \<and> special_chance (create nm st) = min (special_chance st) (1 / 4)
            \<and> special_damage (create nm st) = min (special_damage st) (5 / 2)
            \<and> special_chance (create nm st) \<le> 1 / 4 \<and> special_damage (create nm st) \<le> 5 / 2)
       \<and> (\<exists>st. boss_fetch_stats h stage = Inr st
            \<and> special_chance (create nm st) = min (special_chance st) (1 / 4)
            \<and> special_damage (create nm st) = min (special_damage st) (5 / 2)
            \<and> special_chance (create nm st) \<le> 1 / 4 \<and> special_damage (create nm st) \<le> 5 / 2)
       \<and> (hooks_keep_caps hooks \<longrightarrow>
            (\<exists>u. enemy_init hooks nm h stage = Inr u
                 \<and> special_chance u \<le> 1 / 4 \<and> special_damage u \<le> 5 / 2)
          \<and> (\<exists>b. boss_init hooks nm h stage = Inr b
                 \<and> special_chance b \<le> 1 / 4 \<and> special_damage b \<le> 5 / 2))"
proof -
  obtain st where st: "enemy_fetch_stats h stage = Inr st"
    using fetch_stats_defined(1)[OF assms] by blast
  obtain bt where bt: "boss_fetch_stats h stage = Inr bt"
    using fetch_stats_defined(2)[OF assms] by blast
  have cap: "special_chance (create nm x) \<le> 1 / 4 \<and> special_damage (create nm x) \<le> 5 / 2" for x
    unfolding create_caps by (rule conjI; rule min.cobounded2)
  have A: "\<exists>st. enemy_fetch_stats h stage = Inr st
            \<and> special_chance (create nm st) = min (special_chance st) (1 / 4)
            \<and> special_damage (create nm st) = min (special_damage st) (5 / 2)
            \<and> special_chance (create nm st) \<le> 1 / 4 \<and> special_damage (create nm st) \<le> 5 / 2"
    using st cap[of st] by (auto simp: create_caps)
  have B: "\<exists>st. boss_fetch_stats h stage = Inr st
            \<and> special_chance (create nm st) = min (special_chance st) (1 / 4)
            \<and> special_damage (create nm st) = min (special_damage st) (5 / 2)
            \<and> special_chance (create nm st) \<le> 1 / 4 \<and> special_damage (create nm st) \<le> 5 / 2"
    using bt cap[of bt] by (auto simp: create_caps)
  have C: "(\<exists>u. enemy_init hooks nm h stage = Inr u
                 \<and> special_chance u \<le> 1 / 4 \<and> special_damage u \<le> 5 / 2)
          \<and> (\<exists>b. boss_init hooks nm h stage = Inr b
                 \<and> special_chance b \<le> 1 / 4 \<and> special_damage b \<le> 5 / 2)"
    if hk: "hooks_keep_caps hooks"
  proof
    show "\<exists>u. enemy_init hooks nm h stage = Inr u
                 \<and> special_chance u \<le> 1 / 4 \<and> special_damage u \<le> 5 / 2"
      using on_create_caps[OF hk cap[of st], of h] st by (simp add: enemy_init_def)
    show "\<exists>b. boss_init hooks nm h stage = Inr b
                 \<and> special_chance b \<le> 1 / 4 \<and> special_damage b \<le> 5 / 2"
      using on_create_caps[OF hk cap[of bt], of h] bt assms
      by (cases "variant h") (simp_all add: boss_init_def Let_def enemy.defs boss.defs stats.defs)
  qed
  show ?thesis using A B C by blast
qed

text \<open>
  Witness for C2: an Ozzy hunter with three of the four capabilities, hooks that change hp
  and regen, and stage 3000, where the raw formulas give a special chance of 1.8994 and a
  special damage of 25.03; the boss table of Ozzy gives a special chance of 0.3094.
\<close>

theorem special_caps_at_construction_witness:
  "variant (talented_hunter Ozzy) \<noteq> Other
   \<and> hooks_keep_caps sample_hooks
   \<and> (\<exists>st. enemy_fetch_stats (talented_hunter Ozzy) 3000 = Inr st
         \<and> special_chance st = 1.8994 \<and> special_damage st = 25.03
         \<and> special_chance (create ''E3000'' st) = 1 / 4
         \<and> special_damage (create ''E3000'' st) = 5 / 2)
   \<and> (\<exists>u. enemy_init sample_hooks ''E3000'' (talented_hunter Ozzy) 3000 = Inr u
         \<and> special_chance u \<le> 1 / 4 \<and> special_damage u \<le> 5 / 2)
   \<and> (\<exists>b. boss_init sample_hooks ''E3000'' (talented_hunter Ozzy) 3000 = Inr b
         \<and> special_chance b \<le> 1 / 4 \<and> special_damage b \<le> 5 / 2)"
proof -
  have v: "variant (talented_hunter Ozzy) \<noteq> Other" by (simp add: talented_hunter_def)
  have raw: "\<exists>st. enemy_fetch_stats (talented_hunter Ozzy) 3000 = Inr st
         \<and> special_chance st = 1.8994 \<and> special_damage st = 25.03
         \<and> special_chance (create ''E3000'' st) = 1 / 4
         \<and> special_damage (create ''E3000'' st) = 5 / 2"
    by (simp add: enemy_fetch_stats_def talented_hunter_def create_def)
  show ?thesis
    using special_caps_at_construction [OF v, of 3000 "''E3000''" sample_hooks]
      v raw sample_hooks_keep_caps by blast
qed

section \<open>Receiving damage and healing\<close>

text \<open>
  C7. Reflected damage never takes the evasion branch, whatever the evade chance and the
  draw: hp drops by \<open>damage * (1 - damage_reduction)\<close> and the death handler runs exactly
  when the new hp is at most 0. Damage that is not reflected is fully negated (unit and
  simulation unchanged) when the draw is below the evade chance, and lands in the same way
  otherwise.
\<close>

theorem reflected_damage_lands:
  "receive_damage on_death damage True r (u, s)
     = (u\<lparr>hp := hp u - damage * (1 - damage_reduction u)\<rparr>,
        if hp u - damage * (1 - damage_reduction u) \<le> 0
        then on_death (u\<lparr>hp := hp u - damage * (1 - damage_reduction u)\<rparr>) s else s)
   \<and> (r < evade_chance u \<longrightarrow> receive_damage on_death damage False r (u, s) = (u, s))
   \<and> (\<not> r < evade_chance u \<longrightarrow>
        receive_damage on_death damage False r (u, s) = receive_damage on_death damage True r (u, s))"
  by (simp add: receive_damage_def Let_def is_dead_def)

text \<open>
  Witness for C7: a unit with evade chance 1 and hp 5. With the draw 0.5 a hit of 3 that is
  not reflected is evaded; the same hit reflected leaves hp 2; a reflected hit of 5 brings hp
  to 0 and runs the death handler.
\<close>

theorem reflected_damage_lands_witness:
  "(1 / 2 < evade_chance sample_enemy)
   \<and> receive_damage enemy_on_death 3 False (1 / 2) (sample_enemy, sample_sim) = (sample_enemy, sample_sim)
   \<and> hp (fst (receive_damage enemy_on_death 3 True (1 / 2) (sample_enemy, sample_sim))) = 2
   \<and> snd (receive_damage enemy_on_death 3 True (1 / 2) (sample_enemy, sample_sim)) = sample_sim
   \<and> snd (receive_damage enemy_on_death 5 True (1 / 2) (sample_enemy, sample_sim))
        = enemy_on_death (sample_enemy\<lparr>hp := 0\<rparr>) sample_sim"
  using reflected_damage_lands [of enemy_on_death 3 "1 / 2" sample_enemy sample_sim]
        reflected_damage_lands [of enemy_on_death 5 "1 / 2" sample_enemy sample_sim]
  by (simp add: sample_enemy_def)

subsection \<open>Rounding to double precision\<close>

text \<open>\<open>binade_pos\<close> returns the binary exponent of every positive real.\<close>

lemma binade_pos_bounds:
  "0 < x \<Longrightarrow> 2 powi (binade_pos x) \<le> x \<and> x < 2 powi (binade_pos x + 1)"
proof (induction x rule: binade_pos.induct)
  case (1 x)
  have step: "(2::real) powi (k + 1) = 2 powi k * 2" for k :: int
    by (simp add: power_int_add)
  show ?case
  proof (cases "2 \<le> x")
    case True
    let ?b = "binade_pos (x / 2)"
    have ih: "2 powi ?b \<le> x / 2" "x / 2 < 2 powi (?b + 1)"
      using "1.IH"(1)[OF True] "1.prems" by simp_all
    have e: "binade_pos x = ?b + 1"
      using True by (subst binade_pos.simps) simp
    have "2 powi (?b + 1) \<le> x" using ih(1) step[of ?b] by linarith
    moreover have "x < 2 powi (?b + 1 + 1)" using ih(2) step[of "?b + 1"] by linarith
    ultimately show ?thesis unfolding e by blast
  next
    case False
    show ?thesis
    proof (cases "x < 1")
      case True
      let ?b = "binade_pos (x * 2)"
      have c: "0 < x \<and> x < 1" using True "1.prems" by simp
      have ih: "2 powi ?b \<le> x * 2" "x * 2 < 2 powi (?b + 1)"
        using "1.IH"(2)[OF False c] "1.prems" by simp_all
      have e: "binade_pos x = ?b - 1"
        using False c by (subst binade_pos.simps) simp
      have s1: "(2::real) powi ?b = 2 powi (?b - 1) * 2" using step[of "?b - 1"] by simp
      have s2: "(2::real) powi (?b - 1 + 1) = 2 powi ?b" by simp
      have "2 powi (?b - 1) \<le> x" using ih(1) s1 by linarith
      moreover have "x < 2 powi (?b - 1 + 1)" unfolding s2 using ih(2) step[of ?b] by linarith
      ultimately show ?thesis unfolding e by blast
    next
      case F2: False
      then have e: "binade_pos x = 0"
        using False by (subst binade_pos.simps) simp
      show ?thesis unfolding e using False F2 by simp
    qed
  qed
qed

text \<open>Known doubles: 0.1 is stored as \<open>3602879701896397 / 2 ^ 55\<close>; an integer below
  \<open>2 ^ 53\<close> is stored as it is; \<open>1 + 2 ^ -53\<close> lies halfway between two doubles and goes
  to the even one, 1; \<open>1 + 3 * 2 ^ -53\<close> goes up to \<open>1 + 2 ^ -51\<close>; the sign is kept.\<close>

lemma round_double_examples:
  "round_double 0.1 = 3602879701896397 / 36028797018963968"
  "round_double 36810 = 36810"
  "round_double (1 + 1 / 9007199254740992) = 1"
  "round_double (1 + 3 / 9007199254740992) = 1 + 1 / 2251799813685248"
  "round_double (- 0.1) = - (3602879701896397 / 36028797018963968)"
  by code_simp+

text \<open>The run that leads to the state \<open>worn_enemy\<close>, step by step in doubles: the literal
  2.85, the product \<open>413 * 2.85\<close> that becomes hp and max_hp at stage 101, the literal 433.4,
  and hp after the hits of 697.5 and 433.4 (the damage reduction is the int 0, so the
  mitigated damage is the damage).\<close>

lemma worn_enemy_origin:
  "round_double 2.85 = 6417629469002957 / 2251799813685248"
  "max_hp worn_enemy = round_double (real_of_int (9 + 101 * 4) * round_double 2.85)"
  "round_double 433.4 = 3812226715824947 / 8796093022208"
  "round_double (max_hp worn_enemy - 697.5) = 2109083204399923 / 4398046511104"
  "hp worn_enemy = round_double (round_double (max_hp worn_enemy - 697.5) - round_double 433.4)"
  by code_simp+

text \<open>
  C6. The effective heal is \<open>min value missing_hp\<close> and only hp changes, as the claim says, but
  in double precision the clamp does not keep hp at or below max_hp. At the state
  \<open>worn_enemy\<close> (an Enemy of stage 101 under Borge after hits of 697.5 and 433.4: max_hp is
  the double 1177.05, hp the double 46.14999999999998, so \<open>0 \<le> hp \<le> max_hp\<close>) the
  difference \<^verbatim>\<open>max_hp - hp\<close> rounds up to 1130.9, and \<^verbatim>\<open>hp + 1130.9\<close> rounds up to
  1177.0500000000002, one double above max_hp. So \<^verbatim>\<open>heal_hp(10**6, 'regen')\<close> leaves hp
  above max_hp; healing the missing amount, or twice the missing amount, ends at the same
  hp, which is not max_hp.
\<close>

theorem heal_hp_overshoots_max_hp:
  "0 \<le> hp worn_enemy \<and> hp worn_enemy \<le> max_hp worn_enemy
   \<and> is_double (hp worn_enemy) \<and> is_double (max_hp worn_enemy)
   \<and> missing_hp worn_enemy = 2486875399703757 / 2199023255552
   \<and> heal_hp 1000000 ''regen'' worn_enemy
        = worn_enemy\<lparr>hp := round_double (hp worn_enemy + missing_hp worn_enemy)\<rparr>
   \<and> hp (heal_hp 1000000 ''regen'' worn_enemy) = 1294180161473741 / 1099511627776
   \<and> max_hp worn_enemy < hp (heal_hp 1000000 ''regen'' worn_enemy)
   \<and> hp (heal_hp (missing_hp worn_enemy) ''regen'' worn_enemy)
        = hp (heal_hp 1000000 ''regen'' worn_enemy)
   \<and> hp (heal_hp (2 * missing_hp worn_enemy) ''regen'' worn_enemy)
        = hp (heal_hp (missing_hp worn_enemy) ''regen'' worn_enemy)"
proof -
  have v: "hp worn_enemy = 405939692974899 / 8796093022208"
      "max_hp worn_enemy = 5176720645894963 / 4398046511104"
    by (simp_all add: worn_enemy_def)
  have d: "is_double (405939692974899 / 8796093022208)"
      "is_double (5176720645894963 / 4398046511104)"
    by code_simp+
  have m: "missing_hp worn_enemy = 2486875399703757 / 2199023255552"
    unfolding missing_hp_def v by code_simp
  have s: "round_double (405939692974899 / 8796093022208 + 2486875399703757 / 2199023255552)
             = 1294180161473741 / 1099511627776"
    by code_simp
  have h: "heal_hp x ''regen'' worn_enemy
             = worn_enemy\<lparr>hp := round_double (hp worn_enemy + missing_hp worn_enemy)\<rparr>"
    if "missing_hp worn_enemy \<le> x" for x
    using that by (simp add: heal_hp_def Let_def min_def)
  have h1: "heal_hp 1000000 ''regen'' worn_enemy
             = worn_enemy\<lparr>hp := round_double (hp worn_enemy + missing_hp worn_enemy)\<rparr>"
    by (rule h) (simp add: m)
  have h2: "heal_hp (missing_hp worn_enemy) ''regen'' worn_enemy
             = worn_enemy\<lparr>hp := round_double (hp worn_enemy + missing_hp worn_enemy)\<rparr>"
    by (rule h) simp
  have h3: "heal_hp (2 * missing_hp worn_enemy) ''regen'' worn_enemy
             = worn_enemy\<lparr>hp := round_double (hp worn_enemy + missing_hp worn_enemy)\<rparr>"
    by (rule h) (simp add: m)
  have f: "round_double (hp worn_enemy + missing_hp worn_enemy) = 1294180161473741 / 1099511627776"
    unfolding m v by (rule s)
  have c1: "0 \<le> hp worn_enemy \<and> hp worn_enemy \<le> max_hp worn_enemy"
    by (simp add: v)
  have c2: "is_double (hp worn_enemy) \<and> is_double (max_hp worn_enemy)"
    unfolding v using d by simp
  have c3: "hp (heal_hp 1000000 ''regen'' worn_enemy) = 1294180161473741 / 1099511627776"
    by (simp add: h1 f)
  have c4: "max_hp worn_enemy < hp (heal_hp 1000000 ''regen'' worn_enemy)"
    unfolding c3 by (simp add: v)
  have c5: "hp (heal_hp (missing_hp worn_enemy) ''regen'' worn_enemy)
        = hp (heal_hp 1000000 ''regen'' worn_enemy)"
      "hp (heal_hp (2 * missing_hp worn_enemy) ''regen'' worn_enemy)
        = hp (heal_hp (missing_hp worn_enemy) ''regen'' worn_enemy)"
    by (simp_all only: h1 h2 h3)
  show ?thesis using c1 c2 m h1 c3 c4 c5 by blast
qed

section \<open>Boss: enrage, speed and death\<close>

lemma boss_attack_fields:
  "enrage_stacks (fst (boss_attack r b)) = enrage_stacks b + 1"
  "max_enrage (fst (boss_attack r b)) = (max_enrage b \<or> 199 \<le> enrage_stacks b)"
  "power' (fst (boss_attack r b))
     = (if 199 \<le> enrage_stacks b \<and> \<not> max_enrage b then power' b * 3 else power' b)"
  "special_chance (fst (boss_attack r b))
     = (if 199 \<le> enrage_stacks b \<and> \<not> max_enrage b then 1 else special_chance b)"
  by (auto simp: boss_attack_def Let_def)

lemma boss_attacks_snoc:
  "boss_attacks (rs @ [r]) b = fst (boss_attack r (boss_attacks rs b))"
  by (simp add: boss_attacks_def)

lemma boss_attacks_run:
  assumes "enrage_stacks b = 0" and "\<not> max_enrage b"
  shows "enrage_stacks (boss_attacks rs b) = int (length rs)
       \<and> max_enrage (boss_attacks rs b) = (200 \<le> length rs)
       \<and> power' (boss_attacks rs b) = (if 200 \<le> length rs then 3 * power' b else power' b)
       \<and> special_chance (boss_attacks rs b)
            = (if 200 \<le> length rs then 1 else special_chance b)"
proof (induction rs rule: rev_induct)
  case Nil
  then show ?case using assms by (simp add: boss_attacks_def)
next
  case (snoc r rs)
  then show ?case
    by (auto simp: boss_attacks_snoc boss_attack_fields)
qed

text \<open>
  C4. Every attack of a boss adds exactly 1 to \<open>enrage_stacks\<close>, whatever the draw (special
  hit or not), and hands the hit of the plain attack to the hunter. An attack that brings
  the stacks to 200 or more while the latch is open closes the latch, triples power and sets
  the special chance to 1; below 200 nothing else changes; once the latch is closed an
  attack changes neither power nor special chance. So a new boss (0 stacks, latch open)
  after any run of attacks has as many stacks as attacks, the latch closed exactly from the
  200th attack on, and power 3 times the initial value from then on (also after the 201st).
\<close>

theorem boss_enrage_latch:
  "enrage_stacks (fst (boss_attack r b)) = enrage_stacks b + 1
   \<and> snd (boss_attack r b) = enemy_attack r b
   \<and> (\<not> max_enrage b \<and> 200 \<le> enrage_stacks b + 1 \<longrightarrow>
        max_enrage (fst (boss_attack r b))
        \<and> power' (fst (boss_attack r b)) = 3 * power' b
        \<and> special_chance (fst (boss_attack r b)) = 1)
   \<and> (\<not> max_enrage b \<and> enrage_stacks b + 1 < 200 \<longrightarrow>
        \<not> max_enrage (fst (boss_attack r b))
        \<and> power' (fst (boss_attack r b)) = power' b
        \<and> special_chance (fst (boss_attack r b)) = special_chance b)
   \<and> (max_enrage b \<longrightarrow>
        max_enrage (fst (boss_attack r b))
        \<and> power' (fst (boss_attack r b)) = power' b
        \<and> special_chance (fst (boss_attack r b)) = special_chance b)
   \<and> (enrage_stacks b = 0 \<and> \<not> max_enrage b \<longrightarrow>
        enrage_stacks (boss_attacks rs b) = int (length rs)
        \<and> max_enrage (boss_attacks rs b) = (200 \<le> length rs)
        \<and> power' (boss_attacks rs b) = (if 200 \<le> length rs then 3 * power' b else power' b)
        \<and> special_chance (boss_attacks rs b)
             = (if 200 \<le> length rs then 1 else special_chance b))"
proof -
  have step: "enrage_stacks (fst (boss_attack r b)) = enrage_stacks b + 1
      \<and> snd (boss_attack r b) = enemy_attack r b"
    by (simp add: boss_attack_def Let_def)
  have run: "enrage_stacks b = 0 \<and> \<not> max_enrage b \<longrightarrow>
        enrage_stacks (boss_attacks rs b) = int (length rs)
        \<and> max_enrage (boss_attacks rs b) = (200 \<le> length rs)
        \<and> power' (boss_attacks rs b) = (if 200 \<le> length rs then 3 * power' b else power' b)
        \<and> special_chance (boss_attacks rs b)
             = (if 200 \<le> length rs then 1 else special_chance b)"
    using boss_attacks_run[of b rs] by blast
  show ?thesis
    using step run by (simp add: boss_attack_fields)
qed

text \<open>
  Witness for C4: the boss of Borge (power 263.18) with every draw 0.5. After 199 attacks
  the latch is open and power unchanged; the 200th attack closes the latch with power
  789.54 and special chance 1; the 201st leaves power at 789.54 with 201 stacks.
\<close>

theorem boss_enrage_latch_witness:
  "enrage_stacks sample_boss = 0 \<and> \<not> max_enrage sample_boss
   \<and> \<not> max_enrage (boss_attacks (replicate 199 (1 / 2)) sample_boss)
   \<and> 200 \<le> enrage_stacks (boss_attacks (replicate 199 (1 / 2)) sample_boss) + 1
   \<and> power' (boss_attacks (replicate 199 (1 / 2)) sample_boss) = 263.18
   \<and> max_enrage (fst (boss_attack (1 / 2) (boss_attacks (replicate 199 (1 / 2)) sample_boss)))
   \<and> power' (fst (boss_attack (1 / 2) (boss_attacks (replicate 199 (1 / 2)) sample_boss))) = 789.54
   \<and> special_chance (fst (boss_attack (1 / 2) (boss_attacks (replicate 199 (1 / 2)) sample_boss))) = 1
   \<and> max_enrage (boss_attacks (replicate 200 (1 / 2)) sample_boss)
   \<and> power' (boss_attacks (replicate 200 (1 / 2)) sample_boss) = 789.54
   \<and> power' (fst (boss_attack (1 / 2) (boss_attacks (replicate 200 (1 / 2)) sample_boss))) = 789.54
   \<and> enrage_stacks (boss_attacks (replicate 201 (1 / 2)) sample_boss) = 201
   \<and> power' (boss_attacks (replicate 201 (1 / 2)) sample_boss) = 789.54"
proof -
  have pre: "enrage_stacks sample_boss = 0" "\<not> max_enrage sample_boss"
      "power' sample_boss = 263.18"
    by (simp_all add: sample_boss_def)
  show ?thesis
    using boss_enrage_latch [of "1 / 2" sample_boss "replicate 199 (1 / 2)"]
          boss_enrage_latch [of "1 / 2" sample_boss "replicate 200 (1 / 2)"]
          boss_enrage_latch [of "1 / 2" sample_boss "replicate 201 (1 / 2)"]
          boss_enrage_latch [of "1 / 2" "boss_attacks (replicate 199 (1 / 2)) sample_boss" "[]"]
          boss_enrage_latch [of "1 / 2" "boss_attacks (replicate 200 (1 / 2)) sample_boss" "[]"]
          pre
    by simp
qed

text \<open>
  C8. The speed of a boss is computed at every read as
  \<open>max (base speed - enrage_effect * enrage_stacks) 0.5\<close> from the stored base speed and
  the current stacks: it follows any change of the stacks, for instance the increment of an
  attack, and it is never below 0.5, for any number of stacks.
\<close>

theorem boss_speed_floor:
  "boss_speed b = max (speed b - enrage_effect b * real_of_int (enrage_stacks b)) (1 / 2)
   \<and> 1 / 2 \<le> boss_speed b
   \<and> boss_speed (b\<lparr>enrage_stacks := n\<rparr>) = max (speed b - enrage_effect b * real_of_int n) (1 / 2)
   \<and> boss_speed (fst (boss_attack r b))
        = max (speed b - enrage_effect b * real_of_int (enrage_stacks b + 1)) (1 / 2)"
  by (simp add: boss_speed_def boss_attack_def Let_def)

lemma enemy_on_death_fields:
  "total_kills (sim_hunter (enemy_on_death u s)) = total_kills (sim_hunter s) + 1"
  "enrage_log (sim_hunter (enemy_on_death u s)) = enrage_log (sim_hunter s)"
  "queue (enemy_on_death u s) = heapify (filter (\<lambda>(p1, p2, k). k \<noteq> ''enemy'') (queue s))"
  "journal (enemy_on_death u s) = journal s @ [Kills_Incremented, Queue_Purged]"
  by (simp_all add: enemy_on_death_def Let_def)

text \<open>
  The claim C9 as stated fails: when the sample boss dies, the first write is the increment
  of the kill counter and the append to the enrage log is the last one.
\<close>

theorem boss_on_death_order_counterexample:
  "journal (boss_on_death sample_boss sample_sim)
     = [Kills_Incremented, Queue_Purged, Enrage_Logged 0]
   \<and> hd (journal (boss_on_death sample_boss sample_sim)) \<noteq> Enrage_Logged (enrage_stacks sample_boss)"
  by (simp add: boss_on_death_def Let_def enemy_on_death_fields sample_sim_def sample_boss_def)

text \<open>
  C9 (amended). When a boss dies, \<^verbatim>\<open>on_death\<close> first runs the death handling of Enemy
  (kill counter plus 1, then the purge of the queue) and after that appends the final
  \<open>enrage_stacks\<close> to the enrage log of the hunter: the append is the last write. The kill
  counter and the queue end as the handler of Enemy leaves them.
\<close>

theorem boss_on_death_order:
  "journal (boss_on_death b s)
     = journal s @ [Kills_Incremented, Queue_Purged, Enrage_Logged (enrage_stacks b)]
   \<and> boss_on_death b s
       = (enemy_on_death b s)
           \<lparr>sim_hunter := (sim_hunter (enemy_on_death b s))
              \<lparr>enrage_log := enrage_log (sim_hunter s) @ [enrage_stacks b]\<rparr>,
            journal := journal (enemy_on_death b s) @ [Enrage_Logged (enrage_stacks b)]\<rparr>
   \<and> enrage_log (sim_hunter (boss_on_death b s)) = enrage_log (sim_hunter s) @ [enrage_stacks b]
   \<and> total_kills (sim_hunter (boss_on_death b s)) = total_kills (sim_hunter s) + 1
   \<and> queue (boss_on_death b s) = queue (enemy_on_death b s)"
  by (simp add: boss_on_death_def Let_def enemy_on_death_fields)


section \<open>Stat generation: the regimes of the stage\<close>

lemma floordiv_step_zero:
  assumes "150 \<le> stage" and "stage \<le> 8483"
  shows "floordiv (0.006 * real_of_int (stage - 150)) 50 = 0"
proof -
  have "0 \<le> real_of_int (stage - 150)" and "real_of_int (stage - 150) \<le> 8333"
    using assms by simp_all
  then have "0 \<le> 0.006 * real_of_int (stage - 150) / 50"
    and "0.006 * real_of_int (stage - 150) / 50 < 1"
    by simp_all
  then have "\<lfloor>0.006 * real_of_int (stage - 150) / 50\<rfloor> = 0"
    by (simp add: floor_eq_iff)
  then show ?thesis by (simp add: floordiv_def)
qed

text \<open>Up to stage 100 the stats of a regular enemy are the base formulas alone.\<close>

lemma enemy_stats_base:
  assumes "stage \<le> 100"
  shows "enemy_fetch_stats (plain_hunter Borge) stage = Inr \<lparr>
           hp = 9 + real_of_int stage * 4,
           power' = 2.5 + real_of_int stage * 0.7,
           regen = (if stage > 1 then real_of_int (stage - 1) * 0.08 else 0),
           special_chance = 0.0322 + real_of_int stage * 0.0004,
           special_damage = 1.21 + real_of_int stage * 0.008025,
           damage_reduction = 0, evade_chance = 0,
           speed = 4.53 - real_of_int stage * 0.006 \<rparr>"
    and "enemy_fetch_stats (plain_hunter Ozzy) stage = Inr \<lparr>
           hp = 11 + real_of_int stage * 6,
           power' = 1.35 + real_of_int stage * 0.75,
           regen = (if stage > 0 then 0.02 + real_of_int (stage - 1) * 0.1 else 0),
           special_chance = 0.0994 + real_of_int stage * 0.0006,
           special_damage = 1.03 + real_of_int stage * 0.008,
           damage_reduction = 0, evade_chance = 0,
           speed = 3.20 - real_of_int stage * 0.004 \<rparr>"
  using assms by (simp_all add: enemy_fetch_stats_def plain_hunter_def)

text \<open>From stage 101 to 149 hp, power and regen are the base formulas times the late-game
  multiplier of the stat, and the evade chance is switched on.\<close>

lemma enemy_stats_late:
  assumes "100 < stage" and "stage < 150"
  shows "enemy_fetch_stats (plain_hunter Borge) stage = Inr \<lparr>
           hp = (9 + real_of_int stage * 4) * 2.85,
           power' = (2.5 + real_of_int stage * 0.7) * 2.85,
           regen = real_of_int (stage - 1) * 0.08 * 1.052,
           special_chance = 0.0322 + real_of_int stage * 0.0004,
           special_damage = 1.21 + real_of_int stage * 0.008025,
           damage_reduction = 0, evade_chance = 0.004,
           speed = 4.53 - real_of_int stage * 0.006 \<rparr>"
    and "enemy_fetch_stats (plain_hunter Ozzy) stage = Inr \<lparr>
           hp = (11 + real_of_int stage * 6) * 2.9,
           power' = (1.35 + real_of_int stage * 0.75) * 2.7,
           regen = (0.02 + real_of_int (stage - 1) * 0.1) * 1.25,
           special_chance = 0.0994 + real_of_int stage * 0.0006,
           special_damage = 1.03 + real_of_int stage * 0.008,
           damage_reduction = 0, evade_chance = 0.01,
           speed = 3.20 - real_of_int stage * 0.004 \<rparr>"
  using assms by (simp_all add: enemy_fetch_stats_def plain_hunter_def)

text \<open>The boundary of the second regime: the multiplier is off at stage 100 and on at 101.\<close>

lemma enemy_stats_boundary_100:
  "\<exists>a b. enemy_fetch_stats (plain_hunter Borge) 100 = Inr a
        \<and> enemy_fetch_stats (plain_hunter Borge) 101 = Inr b
        \<and> hp a = 409 \<and> hp b = 413 * 2.85
        \<and> power' a = 72.5 \<and> power' b = 73.2 * 2.85
        \<and> regen a = 7.92 \<and> regen b = 8 * 1.052"
  by (simp add: enemy_stats_base(1) enemy_stats_late(1))

text \<open>From stage 150 on, as long as \<open>0.006 * (stage - 150)\<close> stays below 50 (up to stage
  8483), the floor term of the code is 0: the third factor of power and regen is
  \<open>1 + (stage - 149) * 0.006\<close>, with the same coefficient 0.006 at every stage.\<close>

lemma enemy_stats_compounding:
  assumes "150 \<le> stage" and "stage \<le> 8483"
  shows "\<exists>a. enemy_fetch_stats (plain_hunter Borge) stage = Inr a
           \<and> hp a = (9 + real_of_int stage * 4) * 2.85
                     * (1 + real_of_int (stage div 150) * real_of_int (stage - 149) * 0.006)
           \<and> power' a = (2.5 + real_of_int stage * 0.7) * 2.85
                     * (1 + real_of_int (stage - 149) * 0.006)
           \<and> regen a = real_of_int (stage - 1) * 0.08 * 1.052
                     * (1 + real_of_int (stage - 149) * 0.006)"
    and "\<exists>a. enemy_fetch_stats (plain_hunter Ozzy) stage = Inr a
           \<and> hp a = (11 + real_of_int stage * 6) * 2.9
                     * (1 + real_of_int (stage div 150) * real_of_int (stage - 149) * 0.006)
           \<and> power' a = (1.35 + real_of_int stage * 0.75) * 2.7
                     * (1 + real_of_int (stage - 149) * 0.006)
           \<and> regen a = (0.02 + real_of_int (stage - 1) * 0.1) * 1.25
                     * (1 + real_of_int (stage - 149) * 0.006)"
  using assms floordiv_step_zero[OF assms]
  by (simp_all add: enemy_fetch_stats_def plain_hunter_def)

text \<open>The scenario of stage 150 under Borge: the step is 0 and the code agrees with the
  compounding formula of the specification.\<close>

lemma enemy_stats_stage_150:
  "spec_step 150 = 0
   \<and> (\<exists>a. enemy_fetch_stats (plain_hunter Borge) 150 = Inr a
          \<and> hp a = 609 * 2.85 * spec_compounding 150
          \<and> power' a = 107.5 * 2.85 * spec_compounding 150
          \<and> regen a = 11.92 * 1.052 * spec_compounding 150
          \<and> spec_compounding 150 = 1.006)"
  using enemy_stats_compounding(1)[of 150]
  by (auto simp: spec_step_def spec_compounding_def)

text \<open>
  C1 at stage 200 under Borge. The step \<^verbatim>\<open>(stage-150)//50\<close> is 1 there, so a multiplier
  that re-steepens every 50 stages is \<open>1 + 51 * (0.006 + 0.006 * 1) = 1.612\<close>. The code
  computes \<^verbatim>\<open>0.006 * (stage-150) // 50\<close> as \<^verbatim>\<open>(0.006 * 50) // 50\<close>, which is 0, so
  its multiplier is \<open>1 + 51 * 0.006 = 1.306\<close>, the value for step 0: power is 530.39925
  where the step formula gives 654.6735, and regen and hp are short in the same way.
\<close>

theorem stage_200_step_not_applied:
  "spec_step 200 = 1
   \<and> spec_compounding 200 = 1.612
   \<and> floordiv (0.006 * real_of_int (200 - 150)) 50 = 0
   \<and> (\<exists>a. enemy_fetch_stats (plain_hunter Borge) 200 = Inr a
          \<and> power' a = 142.5 * 2.85 * 1.306
          \<and> power' a \<noteq> 142.5 * 2.85 * spec_compounding 200
          \<and> regen a = 15.92 * 1.052 * 1.306
          \<and> regen a \<noteq> 15.92 * 1.052 * spec_compounding 200
          \<and> hp a = 809 * 2.85 * 1.306
          \<and> hp a \<noteq> 809 * 2.85 * spec_compounding 200)"
proof -
  have s: "spec_step 200 = 1" by (simp add: spec_step_def)
  have c: "spec_compounding 200 = 1.612" by (simp add: spec_compounding_def s)
  have f: "floordiv (0.006 * real_of_int (200 - 150)) 50 = 0"
    by (rule floordiv_step_zero) simp_all
  have e: "\<exists>a. enemy_fetch_stats (plain_hunter Borge) 200 = Inr a
          \<and> power' a = 142.5 * 2.85 * 1.306
          \<and> regen a = 15.92 * 1.052 * 1.306
          \<and> hp a = 809 * 2.85 * 1.306"
    using f by (simp add: enemy_fetch_stats_def plain_hunter_def)
  show ?thesis using s c f e by (auto simp: c)
qed






section \<open>Kill and regeneration\<close>










section \<open>The shared queue: death purge and stun\<close>

lemma set_heapify: "set (heapify x) = set x"
  using heapify_mset[of x] by (rule mset_eq_setD)

lemma sample_queue_purged:
  "heapify (filter (\<lambda>(p1, p2, k). k \<noteq> ''enemy'') sample_queue)
     = [(11, 3, ''regen''), (12, 1, ''hunter'')]"
  unfolding sample_queue_def by code_simp

text \<open>
  C5. The death handler of Enemy adds exactly 1 to the kill counter of the hunter and
  replaces the queue by a list that holds exactly the entries whose kind is not "enemy",
  each as often as before (so no entry of kind enemy is left and no other entry is lost or
  altered), arranged so that the heap invariant holds; the enrage log is not touched. The
  handler of Boss leaves the same queue and kill counter. A hit that lands (reflected, or
  the draw not below the evade chance) and brings hp to 0 or below runs the handler once.
\<close>

theorem death_purges_queue:
  "total_kills (sim_hunter (enemy_on_death u s)) = total_kills (sim_hunter s) + 1
   \<and> mset (queue (enemy_on_death u s))
       = mset (filter (\<lambda>(p1, p2, k). k \<noteq> ''enemy'') (queue s))
   \<and> (\<forall>e \<in> set (queue (enemy_on_death u s)). snd (snd e) \<noteq> ''enemy'')
   \<and> is_heap (queue (enemy_on_death u s))
   \<and> enrage_log (sim_hunter (enemy_on_death u s)) = enrage_log (sim_hunter s)
   \<and> queue (boss_on_death b s) = queue (enemy_on_death b s)
   \<and> total_kills (sim_hunter (boss_on_death b s)) = total_kills (sim_hunter s) + 1
   \<and> ((is_reflected \<or> \<not> r < evade_chance u)
        \<and> hp u - damage * (1 - damage_reduction u) \<le> 0 \<longrightarrow>
        receive_damage enemy_on_death damage is_reflected r (u, s)
          = (u\<lparr>hp := hp u - damage * (1 - damage_reduction u)\<rparr>,
             enemy_on_death (u\<lparr>hp := hp u - damage * (1 - damage_reduction u)\<rparr>) s))"
proof -
  let ?q = "filter (\<lambda>(p1, p2, k). k \<noteq> ''enemy'') (queue s)"
  have q: "queue (enemy_on_death u s) = heapify ?q"
    by (rule enemy_on_death_fields)
  have kinds: "\<forall>e \<in> set (queue (enemy_on_death u s)). snd (snd e) \<noteq> ''enemy''"
    unfolding q set_heapify by auto
  have hit: "(is_reflected \<or> \<not> r < evade_chance u)
        \<and> hp u - damage * (1 - damage_reduction u) \<le> 0 \<longrightarrow>
        receive_damage enemy_on_death damage is_reflected r (u, s)
          = (u\<lparr>hp := hp u - damage * (1 - damage_reduction u)\<rparr>,
             enemy_on_death (u\<lparr>hp := hp u - damage * (1 - damage_reduction u)\<rparr>) s)"
    by (auto simp: receive_damage_def Let_def is_dead_def)
  have boss: "queue (boss_on_death b s) = queue (enemy_on_death b s)"
      "total_kills (sim_hunter (boss_on_death b s)) = total_kills (sim_hunter s) + 1"
    by (simp_all add: boss_on_death_def Let_def enemy_on_death_fields)
  show ?thesis
    using kinds hit boss heapify_mset[of ?q] heapify_is_heap[of ?q]
    by (simp add: enemy_on_death_fields)
qed

text \<open>
  Witness for C5: the unit with hp 5 takes a reflected hit of 5 in a simulation whose queue
  holds one enemy entry, one hunter entry and one regen entry. The kill counter goes from 0
  to 1 and the queue becomes the heap of the two other entries.
\<close>

theorem death_purges_queue_witness:
  "hp sample_enemy - 5 * (1 - damage_reduction sample_enemy) \<le> 0
   \<and> total_kills (sim_hunter sample_sim) = 0
   \<and> total_kills (sim_hunter (snd (receive_damage enemy_on_death 5 True 0 (sample_enemy, sample_sim)))) = 1
   \<and> queue (snd (receive_damage enemy_on_death 5 True 0 (sample_enemy, sample_sim)))
       = [(11, 3, ''regen''), (12, 1, ''hunter'')]
   \<and> is_heap (queue (snd (receive_damage enemy_on_death 5 True 0 (sample_enemy, sample_sim))))"
proof -
  have pre: "hp sample_enemy - 5 * (1 - damage_reduction sample_enemy) \<le> 0"
    by (simp add: sample_enemy_def)
  have k0: "total_kills (sim_hunter sample_sim) = 0"
    by (simp add: sample_sim_def plain_hunter_def)
  let ?u = "sample_enemy\<lparr>hp := hp sample_enemy - 5 * (1 - damage_reduction sample_enemy)\<rparr>"
  have q: "queue (enemy_on_death ?u sample_sim) = [(11, 3, ''regen''), (12, 1, ''hunter'')]"
    using sample_queue_purged by (simp add: enemy_on_death_fields sample_sim_def)
  note thm1 = death_purges_queue [of sample_enemy sample_sim sample_boss True 0 5]
  note thm2 = death_purges_queue [of ?u sample_sim sample_boss True 0 5]
  from thm1 pre have run: "receive_damage enemy_on_death 5 True 0 (sample_enemy, sample_sim)
      = (?u, enemy_on_death ?u sample_sim)" by blast
  show ?thesis
    unfolding run using thm2 pre k0 q by simp
qed

lemma stun_no_enemy:
  "filter (\<lambda>(p1, p2, k). k = ''enemy'') (queue s) = [] \<Longrightarrow> stun d s = Inl IndexError"
  by (simp add: stun_def)

text \<open>What holds of \<^verbatim>\<open>stun\<close> on every queue with exactly one enemy entry: the entries
  are the old ones with the enemy entry moved by the duration, tie-break and kind kept.\<close>

lemma stun_entries:
  assumes "filter (\<lambda>(p1, p2, k). k = ''enemy'') (queue s) = [(t, tb, ''enemy'')]"
  shows "\<exists>s'. stun d s = Inr s'
           \<and> mset (queue s')
               = add_mset (t + d, tb, ''enemy'') (mset (queue s) - {#(t, tb, ''enemy'')#})
           \<and> filter (\<lambda>(p1, p2, k). k = ''enemy'') (queue s') \<noteq> []
           \<and> mset (filter (\<lambda>(p1, p2, k). k = ''enemy'') (queue s')) = {#(t + d, tb, ''enemy'')#}
           \<and> mset (filter (\<lambda>(p1, p2, k). k \<noteq> ''enemy'') (queue s'))
               = mset (filter (\<lambda>(p1, p2, k). k \<noteq> ''enemy'') (queue s))
           \<and> sim_hunter s' = sim_hunter s"
proof -
  let ?e = "(t, tb, ''enemy'')"
  let ?P = "\<lambda>(p1 :: real, p2 :: int, k). k = ''enemy''"
  let ?N = "\<lambda>(p1 :: real, p2 :: int, k). k \<noteq> ''enemy''"
  let ?q' = "heappush (remove1 ?e (queue s)) (t + d, tb, ''enemy'')"
  have st: "stun d s = Inr (s\<lparr>queue := ?q'\<rparr>)"
    using assms by (simp add: stun_def)
  have m: "mset ?q' = add_mset (t + d, tb, ''enemy'') (mset (queue s) - {#?e#})"
    by (simp add: heappush_mset)
  have fe: "filter_mset ?P (mset (queue s)) = {#?e#}"
    using arg_cong[OF assms, of mset] by simp
  have "mset (filter ?P ?q') = filter_mset ?P (mset ?q')" by simp
  also have "\<dots> = filter_mset ?P (add_mset (t + d, tb, ''enemy'') (mset (queue s) - {#?e#}))"
    by (simp only: m)
  also have "\<dots> = add_mset (t + d, tb, ''enemy'') (filter_mset ?P (mset (queue s)) - {#?e#})"
    by simp
  also have "\<dots> = {#(t + d, tb, ''enemy'')#}" by (simp only: fe) simp
  finally have me: "mset (filter ?P ?q') = {#(t + d, tb, ''enemy'')#}" .
  have "mset (filter ?N ?q') = filter_mset ?N (mset ?q')" by simp
  also have "\<dots> = filter_mset ?N (add_mset (t + d, tb, ''enemy'') (mset (queue s) - {#?e#}))"
    by (simp only: m)
  also have "\<dots> = filter_mset ?N (mset (queue s))" by simp
  also have "\<dots> = mset (filter ?N (queue s))" by simp
  finally have mn: "mset (filter ?N ?q') = mset (filter ?N (queue s))" .
  have ne: "filter ?P ?q' \<noteq> []"
  proof
    assume "filter ?P ?q' = []"
    then have "mset (filter ?P ?q') = {#}" by (simp only: mset.simps)
    with me show False by simp
  qed
  show ?thesis using st m me mn ne by simp
qed

text \<open>
  C3 at the queue \<open>[(10, 2, enemy), (12, 1, hunter), (11, 3, regen)]\<close>, which is a heap,
  with duration 3: \<^verbatim>\<open>list.remove\<close> takes the root away and leaves
  \<open>[(12, 1, hunter), (11, 3, regen)]\<close>, which is not a heap; \<^verbatim>\<open>heappush\<close> appends
  \<open>(13, 2, enemy)\<close> and compares it with its parent \<open>(12, 1, hunter)\<close> only. The enemy
  entry is at time 13 with tie-break and kind kept and the other entries are there, but the
  result is not a heap: its first entry is at time 12 while the entry at time 11 is due
  earlier.
\<close>

theorem stun_breaks_heap:
  "is_heap (queue sample_sim)
   \<and> filter (\<lambda>(p1, p2, k). k = ''enemy'') (queue sample_sim) = [(10, 2, ''enemy'')]
   \<and> stun 3 sample_sim
       = Inr (sample_sim\<lparr>queue := [(12, 1, ''hunter''), (11, 3, ''regen''), (13, 2, ''enemy'')]\<rparr>)
   \<and> \<not> is_heap [(12 :: real, 1 :: int, ''hunter''), (11, 3, ''regen''), (13, 2, ''enemy'')]
   \<and> heapify [(12 :: real, 1 :: int, ''hunter''), (11, 3, ''regen''), (13, 2, ''enemy'')]
       = [(11, 3, ''regen''), (12, 1, ''hunter''), (13, 2, ''enemy'')]"
proof -
  have h0: "is_heap (queue sample_sim)"
    unfolding sample_sim_def sample_queue_def by code_simp
  have f: "filter (\<lambda>(p1, p2, k). k = ''enemy'') (queue sample_sim) = [(10, 2, ''enemy'')]"
    by (simp add: sample_sim_def sample_queue_def)
  have push: "heappush [(12 :: real, 1 :: int, ''hunter''), (11, 3, ''regen'')] (13, 2, ''enemy'')
      = [(12, 1, ''hunter''), (11, 3, ''regen''), (13, 2, ''enemy'')]"
    by code_simp
  have rm: "remove1 (10, 2, ''enemy'') (queue sample_sim) = [(12, 1, ''hunter''), (11, 3, ''regen'')]"
    by (simp add: sample_sim_def sample_queue_def)
  have st: "stun 3 sample_sim
       = Inr (sample_sim\<lparr>queue := [(12, 1, ''hunter''), (11, 3, ''regen''), (13, 2, ''enemy'')]\<rparr>)"
    using push by (simp add: stun_def f rm)
  have h1: "\<not> is_heap [(12 :: real, 1 :: int, ''hunter''), (11, 3, ''regen''), (13, 2, ''enemy'')]"
    by code_simp
  have h2: "heapify [(12 :: real, 1 :: int, ''hunter''), (11, 3, ''regen''), (13, 2, ''enemy'')]
       = [(11, 3, ''regen''), (12, 1, ''hunter''), (13, 2, ''enemy'')]"
    by code_simp
  show ?thesis using h0 f st h1 h2 by simp
qed


end
